theory Spec2Isabelle
  imports Complex_Main
begin

section \<open>The bubble shooter of \<^verbatim>\<open>src/json_printer/script.js\<close>\<close>

text \<open>
  The script keeps its whole state in module variables and changes them in place.  The
  embedding passes that state explicitly: a function that changes the grid returns the
  new grid, and a handler maps the state of the game to the next one.

  JavaScript numbers are modelled by \<^typ>\<open>real\<close> where the script computes with pixel
  coordinates, angles and times, and by \<^typ>\<open>int\<close> where it computes with row and column
  indices (these only ever arise from \<^verbatim>\<open>Math.round\<close> and from adding the integer
  offsets of the neighbour tables).  So the arithmetic is exact here, where the script
  rounds to double precision.  \<^verbatim>\<open>Math.round x\<close> is \<open>\<lfloor>x + 1/2\<rfloor>\<close>, which is
  \<^const>\<open>round\<close>.

  A \<^verbatim>\<open>TypeError\<close> (reading or writing a property of \<^verbatim>\<open>undefined\<close> or
  \<^verbatim>\<open>null\<close>) is the result \<^const>\<open>None\<close> of an operation of type \<open>_ option\<close>.

  The drawing functions and the updates of the score element change nothing that the
  script reads again; they are left out.
\<close>

subsection \<open>Constants\<close>

text \<open>
  The canvas element is declared in a page that is not part of the sources, so its two
  dimensions are parameters of the model.
\<close>

record canvas =
  CANVAS_WIDTH :: real
  CANVAS_HEIGHT :: real

definition SHOOTER_Y :: "canvas \<Rightarrow> real" where
  "SHOOTER_Y cv = CANVAS_HEIGHT cv - 70"

definition POINTER_MIN :: real where
  "POINTER_MIN = 20 * (pi / 180)"

definition POINTER_MAX :: real where
  "POINTER_MAX = 160 * (pi / 180)"

definition BUBBLE_RADIUS :: real where
  "BUBBLE_RADIUS = 16"

definition BUBBLE_DIAMETER :: real where
  "BUBBLE_DIAMETER = BUBBLE_RADIUS * 2"

definition VERTICAL_SPACING :: real where
  "VERTICAL_SPACING = sqrt 3 * BUBBLE_RADIUS"

definition COLUMNS :: nat where
  "COLUMNS = 14"

definition LEFT_OFFSET :: "canvas \<Rightarrow> real" where
  "LEFT_OFFSET cv = (CANVAS_WIDTH cv - real COLUMNS * BUBBLE_DIAMETER) / 2"

definition TOP_MARGIN :: real where
  "TOP_MARGIN = 80"

definition LAUNCH_SPEED :: real where
  "LAUNCH_SPEED = 460"

definition COLORS :: "string list" where
  "COLORS = [''#ff6b6b'', ''#f7b801'', ''#8ac926'', ''#1982c4'', ''#6a4c93'', ''#ff9770'']"

subsection \<open>The grid\<close>

record bubble =
  bubble_row :: int
  bubble_col :: int
  bubble_x :: real
  bubble_y :: real
  bubble_color :: string

text \<open>
  \<^verbatim>\<open>grid\<close> is an array of rows.  An entry of the outer array is \<^verbatim>\<open>undefined\<close>
  (a hole left by an assignment past the end, here \<^const>\<open>None\<close>) or an array of cells; a
  cell is \<^verbatim>\<open>null\<close> (here \<^const>\<open>None\<close>) or a bubble.
\<close>

type_synonym grid = "bubble option list option list"

text \<open>
  \<^verbatim>\<open>if (!grid[row]) grid[row] = new Array(COLUMNS).fill(null)\<close>: an assignment past
  the end of the array extends it and leaves holes below.  Every caller passes a row
  that it has checked to be non-negative.
\<close>

definition ensureRow :: "nat \<Rightarrow> grid \<Rightarrow> grid" where
  "ensureRow row g =
     (if row < length g then
        (case g ! row of
           None \<Rightarrow> g[row := Some (replicate COLUMNS None)]
         | Some cs \<Rightarrow> g)
      else g @ replicate (row - length g) None @ [Some (replicate COLUMNS None)])"

text \<open>\<^verbatim>\<open>grid[row]\<close>: \<^verbatim>\<open>undefined\<close> for a hole and outside the array.\<close>

definition rowAt :: "grid \<Rightarrow> int \<Rightarrow> bubble option list option" where
  "rowAt g row = (if 0 \<le> row \<and> nat row < length g then g ! nat row else None)"

text \<open>
  \<^verbatim>\<open>grid[row][col]\<close>: a \<^verbatim>\<open>TypeError\<close> when \<^verbatim>\<open>grid[row]\<close> is undefined.  A
  column outside the row array reads \<^verbatim>\<open>undefined\<close>, which every use tests for
  truthiness only, as it does \<^verbatim>\<open>null\<close>.
\<close>

definition cellAt :: "grid \<Rightarrow> int \<Rightarrow> int \<Rightarrow> bubble option option" where
  "cellAt g row col =
     (case rowAt g row of
        None \<Rightarrow> None
      | Some cs \<Rightarrow> Some (if 0 \<le> col \<and> nat col < length cs then cs ! nat col else None))"

text \<open>
  \<^verbatim>\<open>arr[col] = v\<close> on a row array: inside the array it replaces the entry, past the
  end it extends the array, and a negative index only sets a property that no array
  operation of the script sees.
\<close>

definition setEntry :: "bubble option list \<Rightarrow> int \<Rightarrow> bubble option \<Rightarrow> bubble option list" where
  "setEntry cs col v =
     (if col < 0 then cs
      else if nat col < length cs then cs[nat col := v]
      else cs @ replicate (nat col - length cs) None @ [v])"

text \<open>\<^verbatim>\<open>grid[row][col] = v\<close>: a \<^verbatim>\<open>TypeError\<close> when \<^verbatim>\<open>grid[row]\<close> is undefined.\<close>

definition setCell :: "grid \<Rightarrow> int \<Rightarrow> int \<Rightarrow> bubble option \<Rightarrow> grid option" where
  "setCell g row col v =
     (case rowAt g row of
        None \<Rightarrow> None
      | Some cs \<Rightarrow> Some (g[nat row := Some (setEntry cs col v)]))"

subsection \<open>Geometry\<close>

definition gridToPixel :: "canvas \<Rightarrow> int \<Rightarrow> int \<Rightarrow> real \<times> real" where
  "gridToPixel cv row col =
     (let offset = (if row mod 2 \<noteq> 0 then BUBBLE_RADIUS else 0);
          x = LEFT_OFFSET cv + real_of_int col * BUBBLE_DIAMETER + BUBBLE_RADIUS + offset;
          y = TOP_MARGIN + real_of_int row * VERTICAL_SPACING + BUBBLE_RADIUS
      in (x, y))"

definition pixelToGrid :: "canvas \<Rightarrow> real \<Rightarrow> real \<Rightarrow> int \<times> int" where
  "pixelToGrid cv x y =
     (let row = max 0 (round ((y - TOP_MARGIN) / VERTICAL_SPACING));
          offset = (if row mod 2 \<noteq> 0 then BUBBLE_RADIUS else 0);
          col = max 0 (round ((x - LEFT_OFFSET cv - offset) / BUBBLE_DIAMETER))
      in (row, min col (int COLUMNS - 1)))"

definition makeGridBubble :: "canvas \<Rightarrow> int \<Rightarrow> int \<Rightarrow> string \<Rightarrow> bubble" where
  "makeGridBubble cv row col color =
     (let (x, y) = gridToPixel cv row col
      in \<lparr>bubble_row = row, bubble_col = col, bubble_x = x, bubble_y = y,
          bubble_color = color\<rparr>)"

definition distance :: "real \<Rightarrow> real \<Rightarrow> real \<Rightarrow> real \<Rightarrow> real" where
  "distance x1 y1 x2 y2 =
     (let dx = x1 - x2; dy = y1 - y2 in sqrt (dx * dx + dy * dy))"

definition clamp :: "real \<Rightarrow> real \<Rightarrow> real \<Rightarrow> real" where
  "clamp v lo hi = max lo (min v hi)"

subsection \<open>Cell lookup and hexagonal adjacency\<close>

text \<open>The result carries the grid, because \<^verbatim>\<open>getBubble\<close> calls \<^verbatim>\<open>ensureRow\<close>.\<close>

definition getBubble :: "int \<Rightarrow> int \<Rightarrow> grid \<Rightarrow> (bubble option \<times> grid) option" where
  "getBubble row col g =
     (if row < 0 \<or> col < 0 \<or> row \<ge> int (length g) \<or> col \<ge> int COLUMNS then Some (None, g)
      else
        (let g' = ensureRow (nat row) g
         in case cellAt g' row col of
              None \<Rightarrow> None
            | Some b \<Rightarrow> Some (b, g')))"

definition offsetsEven :: "(int \<times> int) list" where
  "offsetsEven = [(-1, 0), (-1, -1), (0, -1), (0, 1), (1, 0), (1, -1)]"

definition offsetsOdd :: "(int \<times> int) list" where
  "offsetsOdd = [(-1, 0), (-1, 1), (0, -1), (0, 1), (1, 0), (1, 1)]"

text \<open>
  The loop over the offset table; \<open>neighbors\<close> is the array built so far.  In
  JavaScript \<^verbatim>\<open>row % 2\<close> is \<open>-1\<close> for a negative odd row, which is truthy as \<open>1\<close> is,
  so the test is \<open>row mod 2 \<noteq> 0\<close> for every integer.
\<close>

fun getNeighbors_loop ::
  "int \<Rightarrow> int \<Rightarrow> (int \<times> int) list \<Rightarrow> (int \<times> int) list \<Rightarrow> grid \<Rightarrow> (int \<times> int) list \<times> grid" where
  "getNeighbors_loop row col [] neighbors g = (neighbors, g)"
| "getNeighbors_loop row col ((orow, ocol) # offsets) neighbors g =
     (let nr = row + orow; nc = col + ocol
      in if nr < 0 \<or> nc < 0 \<or> nc \<ge> int COLUMNS
         then getNeighbors_loop row col offsets neighbors g
         else getNeighbors_loop row col offsets (neighbors @ [(nr, nc)]) (ensureRow (nat nr) g))"

definition getNeighbors :: "int \<Rightarrow> int \<Rightarrow> grid \<Rightarrow> (int \<times> int) list \<times> grid" where
  "getNeighbors row col g =
     (let offsets = (if row mod 2 \<noteq> 0 then offsetsOdd else offsetsEven)
      in getNeighbors_loop row col offsets [] g)"

subsection \<open>The cells that the lookup sees\<close>

text \<open>
  \<open>bubbleAt g (row, col)\<close> is the bubble that \<open>getBubble row col\<close> finds in the grid
  \<open>g\<close>, and \<open>occupied g\<close> is the set of the cells where it finds one.  Both are unchanged
  by \<open>ensureRow\<close>; they carry the termination proofs of the two searches and the
  statements of their properties.
\<close>

definition inRange :: "int \<times> int \<Rightarrow> bool" where
  "inRange p = (0 \<le> fst p \<and> 0 \<le> snd p \<and> snd p \<le> int COLUMNS - 1)"

lemma getNeighbors_loop_fst:
  "fst (getNeighbors_loop row col offsets acc g) =
     acc @ filter inRange (map (\<lambda>(orow, ocol). (row + orow, col + ocol)) offsets)"
  by (induction row col offsets acc g rule: getNeighbors_loop.induct)
     (auto simp: Let_def inRange_def)

definition bubbleAt :: "grid \<Rightarrow> int \<times> int \<Rightarrow> bubble option" where
  "bubbleAt g p =
     (if snd p \<ge> int COLUMNS then None
      else case cellAt g (fst p) (snd p) of None \<Rightarrow> None | Some b \<Rightarrow> b)"

definition occupied :: "grid \<Rightarrow> (int \<times> int) set" where
  "occupied g = {p. bubbleAt g p \<noteq> None}"

lemma length_ensureRow: "length (ensureRow r g) = max (length g) (Suc r)"
  by (auto simp: ensureRow_def split: option.splits)

lemma rowAt_ensureRow:
  "rowAt (ensureRow r g) row =
     (if 0 \<le> row \<and> nat row = r \<and> rowAt g row = None then Some (replicate COLUMNS None)
      else rowAt g row)"
  by (auto simp: rowAt_def ensureRow_def nth_append nth_list_update split: option.splits)

lemma rowAt_ensureRow_same: "rowAt (ensureRow (nat row) g) row \<noteq> None" if "0 \<le> row"
  using that by (simp add: rowAt_ensureRow)

lemma bubbleAt_ensureRow [simp]: "bubbleAt (ensureRow r g) p = bubbleAt g p"
  by (auto simp: bubbleAt_def cellAt_def rowAt_ensureRow split: option.splits)

lemma occupied_ensureRow [simp]: "occupied (ensureRow r g) = occupied g"
  by (simp add: occupied_def)

lemma bubbleAt_SomeD:
  assumes "bubbleAt g p = Some b"
  shows "0 \<le> fst p" "fst p < int (length g)" "0 \<le> snd p" "snd p < int COLUMNS"
proof -
  from assms show c: "snd p < int COLUMNS"
    by (simp add: bubbleAt_def split: if_splits)
  with assms obtain cs where cs: "rowAt g (fst p) = Some cs"
    by (cases "rowAt g (fst p)") (simp_all add: bubbleAt_def cellAt_def)
  then show "0 \<le> fst p" "fst p < int (length g)"
    by (simp_all add: rowAt_def split: if_splits)
  from assms c cs show "0 \<le> snd p"
    by (simp add: bubbleAt_def cellAt_def split: if_splits)
qed

lemma occupied_bounds:
  "occupied g \<subseteq> {0..<int (length g)} \<times> {0..<int COLUMNS}"
proof
  fix p assume "p \<in> occupied g"
  then obtain b where "bubbleAt g p = Some b" by (auto simp: occupied_def)
  from bubbleAt_SomeD[OF this] show "p \<in> {0..<int (length g)} \<times> {0..<int COLUMNS}"
    by (cases p) simp
qed

lemma finite_occupied [simp]: "finite (occupied g)"
  by (rule finite_subset[OF occupied_bounds]) simp

lemma getBubble_eq:
  "getBubble row col g =
     Some (bubbleAt g (row, col),
           if row < 0 \<or> col < 0 \<or> row \<ge> int (length g) \<or> col \<ge> int COLUMNS then g
           else ensureRow (nat row) g)"
proof (cases "row < 0 \<or> col < 0 \<or> row \<ge> int (length g) \<or> col \<ge> int COLUMNS")
  case True
  then show ?thesis
    by (auto simp: getBubble_def bubbleAt_def cellAt_def rowAt_def split: option.splits)
next
  case False
  then obtain cs where cs: "rowAt (ensureRow (nat row) g) row = Some cs"
    using rowAt_ensureRow_same[of row g] by auto
  have "bubbleAt (ensureRow (nat row) g) (row, col) = bubbleAt g (row, col)" by simp
  then show ?thesis using False cs
    by (auto simp: getBubble_def bubbleAt_def cellAt_def Let_def split: option.splits)
qed

lemma getBubble_Some:
  assumes "getBubble row col g = Some (b, g')"
  shows "b = bubbleAt g (row, col)" "bubbleAt g' = bubbleAt g" "occupied g' = occupied g"
  using assms by (auto simp: getBubble_eq occupied_def split: if_splits)

definition hexNeighbors :: "int \<Rightarrow> int \<Rightarrow> (int \<times> int) list" where
  "hexNeighbors row col =
     filter inRange
       (map (\<lambda>(orow, ocol). (row + orow, col + ocol))
         (if row mod 2 \<noteq> 0 then offsetsOdd else offsetsEven))"

lemma getNeighbors_loop_snd:
  "bubbleAt (snd (getNeighbors_loop row col offsets acc g)) = bubbleAt g"
  by (induction row col offsets acc g rule: getNeighbors_loop.induct) (auto simp: Let_def fun_eq_iff)

lemma getNeighbors_fst: "fst (getNeighbors row col g) = hexNeighbors row col"
  by (simp add: getNeighbors_def hexNeighbors_def getNeighbors_loop_fst Let_def)

lemma getNeighbors_snd: "bubbleAt (snd (getNeighbors row col g)) = bubbleAt g"
  by (simp add: getNeighbors_def getNeighbors_loop_snd Let_def)

lemma getNeighbors_eq:
  assumes "getNeighbors row col g = (ns, g')"
  shows "ns = hexNeighbors row col" "bubbleAt g' = bubbleAt g" "occupied g' = occupied g"
  using getNeighbors_fst[of row col g] getNeighbors_snd[of row col g] assms
  by (auto simp: occupied_def)

lemma card_occupied_insert_le: "card (occupied g - insert c v) \<le> card (occupied g - v)"
  by (intro card_mono) auto

lemma card_occupied_insert_less:
  "c \<in> occupied g \<Longrightarrow> c \<notin> v \<Longrightarrow> card (occupied g - insert c v) < card (occupied g - v)"
  by (intro psubset_card_mono) auto

subsection \<open>Flood fill\<close>

text \<open>
  The \<^verbatim>\<open>while (stack.length)\<close> loop of \<^verbatim>\<open>collectCluster\<close>.  The stack is a list
  whose head is the top (\<^verbatim>\<open>pop\<close> takes the last element of the array, and the
  neighbours are pushed one after the other, so the last neighbour is popped first).  The
  set \<^verbatim>\<open>visited\<close> holds the keys \<^verbatim>\<open>`${row},${col}`\<close>; two cells with integer indices
  have the same key only if they are the same cell, so the set is a set of cells here.
\<close>

function collectCluster_loop ::
  "string \<Rightarrow> (int \<times> int) set \<Rightarrow> (int \<times> int) list \<Rightarrow> bubble list \<Rightarrow> grid
     \<Rightarrow> (bubble list \<times> grid) option" where
  "collectCluster_loop color visited [] matched g = Some (matched, g)"
| "collectCluster_loop color visited (current # stack) matched g =
     (if current \<in> visited then collectCluster_loop color visited stack matched g
      else
        (case getBubble (fst current) (snd current) g of
           None \<Rightarrow> None
         | Some (bubble, g1) \<Rightarrow>
             (case bubble of
                None \<Rightarrow> collectCluster_loop color (insert current visited) stack matched g1
              | Some b \<Rightarrow>
                  if bubble_color b \<noteq> color
                  then collectCluster_loop color (insert current visited) stack matched g1
                  else
                    (case getNeighbors (fst current) (snd current) g1 of
                       (neighbors, g2) \<Rightarrow>
                         collectCluster_loop color (insert current visited)
                           (rev neighbors @ stack) (matched @ [b]) g2))))"
  by pat_completeness auto
termination
proof (relation "measures [\<lambda>(color, visited, stack, matched, g). card (occupied g - visited),
                           \<lambda>(color, visited, stack, matched, g). length stack]", goal_cases)
  case 1
  show ?case by simp
next
  case (2 color visited current stack matched g)
  then show ?case by simp
next
  case (3 color visited current stack matched g x2 bubble g1)
  from 3(2,3) have "getBubble (fst current) (snd current) g = Some (bubble, g1)" by simp
  then have "occupied g1 = occupied g" by (rule getBubble_Some)
  then have "card (occupied g1 - insert current visited) \<le> card (occupied g - visited)"
    by (simp add: card_occupied_insert_le)
  then show ?case by (simp add: le_less)
next
  case (4 color visited current stack matched g x2 bubble g1 b)
  from 4(2,3) have "getBubble (fst current) (snd current) g = Some (bubble, g1)" by simp
  then have "occupied g1 = occupied g" by (rule getBubble_Some)
  then have "card (occupied g1 - insert current visited) \<le> card (occupied g - visited)"
    by (simp add: card_occupied_insert_le)
  then show ?case by (simp add: le_less)
next
  case (5 color visited current stack matched g x2 bubble g1 b neighbors g2)
  from 5(2,3,4) have gb: "getBubble (fst current) (snd current) g = Some (Some b, g1)" by simp
  have o: "occupied g1 = occupied g" using gb by (rule getBubble_Some)
  have "Some b = bubbleAt g (fst current, snd current)" using gb by (rule getBubble_Some)
  then have "bubbleAt g current = Some b" by simp
  then have "current \<in> occupied g" by (simp add: occupied_def)
  then have lt: "card (occupied g - insert current visited) < card (occupied g - visited)"
    using 5(1) by (rule card_occupied_insert_less)
  from 5(6) have "getNeighbors (fst current) (snd current) g1 = (neighbors, g2)" by simp
  then have "occupied g2 = occupied g1" by (rule getNeighbors_eq)
  with o lt show ?case by simp
qed

definition collectCluster ::
  "int \<Rightarrow> int \<Rightarrow> string \<Rightarrow> grid \<Rightarrow> (bubble list \<times> grid) option" where
  "collectCluster row col color g = collectCluster_loop color {} [(row, col)] [] g"

subsection \<open>The game state and match resolution\<close>

fun removeCluster :: "bubble list \<Rightarrow> grid \<Rightarrow> grid" where
  "removeCluster [] g = g"
| "removeCluster (bubble # cluster) g =
     (case rowAt g (bubble_row bubble) of
        None \<Rightarrow> removeCluster cluster g
      | Some cs \<Rightarrow>
          removeCluster cluster
            (g[nat (bubble_row bubble) := Some (setEntry cs (bubble_col bubble) None)]))"

text \<open>
  The shooter's bubbles \<^verbatim>\<open>{x, y, color, dx, dy, active}\<close>, the projectile
  \<^verbatim>\<open>{x, y, color, dx, dy}\<close>, and the module variables of the script.  The two messages of
  \<^verbatim>\<open>endGame\<close> are constructors: \<open>AllCleared\<close> for the message of a cleared board,
  \<open>ReachedFloor\<close> for the message of a loss, \<open>NoMessage\<close> for the empty string.
\<close>

record shooter_bubble =
  sb_x :: real
  sb_y :: real
  sb_color :: string
  sb_dx :: real
  sb_dy :: real
  sb_active :: bool

record moving_bubble =
  mb_x :: real
  mb_y :: real
  mb_color :: string
  mb_dx :: real
  mb_dy :: real

datatype message = NoMessage | AllCleared | ReachedFloor

record game =
  grid :: grid
  pointerAngle :: real
  currentBubble :: "shooter_bubble option"
  nextBubble :: "shooter_bubble option"
  movingBubble :: "moving_bubble option"
  keys :: "string set"
  lastTime :: real
  score :: int
  gameOver :: bool
  message :: message

definition resolveMatches :: "int \<Rightarrow> int \<Rightarrow> game \<Rightarrow> game option" where
  "resolveMatches row col s =
     (case cellAt (grid s) row col of
        None \<Rightarrow> None
      | Some None \<Rightarrow> Some s
      | Some (Some origin) \<Rightarrow>
          (case collectCluster row col (bubble_color origin) (grid s) of
             None \<Rightarrow> None
           | Some (cluster, g1) \<Rightarrow>
               if length cluster \<ge> 3
               then Some (s\<lparr>grid := removeCluster cluster g1,
                            score := score s + int (length cluster) * 100\<rparr>)
               else Some (s\<lparr>grid := g1\<rparr>)))"

subsection \<open>Floating-cluster cleanup\<close>

text \<open>
  The four loops of \<^verbatim>\<open>checkForFloating\<close>: the scan of row 0 for the seeds, the loop
  over the neighbours of one cell, the \<^verbatim>\<open>while (queue.length)\<close> loop (\<^verbatim>\<open>shift\<close>
  takes the head of the queue and \<^verbatim>\<open>push\<close> appends), and the two nested loops that
  clear the cells that were not reached.  \<open>conn\<close> is the set \<^verbatim>\<open>connected\<close>.
\<close>

function checkForFloating_seeds ::
  "nat \<Rightarrow> (int \<times> int) set \<Rightarrow> (int \<times> int) set \<Rightarrow> (int \<times> int) list \<Rightarrow> grid
     \<Rightarrow> ((int \<times> int) set \<times> (int \<times> int) set \<times> (int \<times> int) list \<times> grid) option" where
  "checkForFloating_seeds col visited conn queue g =
     (if col < COLUMNS then
        (case getBubble 0 (int col) g of
           None \<Rightarrow> None
         | Some (bubble, g1) \<Rightarrow>
             (case bubble of
                None \<Rightarrow> checkForFloating_seeds (col + 1) visited conn queue g1
              | Some b \<Rightarrow>
                  checkForFloating_seeds (col + 1) (insert (0, int col) visited)
                    (insert (0, int col) conn) (queue @ [(0, int col)]) g1))
      else Some (visited, conn, queue, g))"
  by pat_completeness auto
termination
  by (relation "measure (\<lambda>(col, visited, conn, queue, g). COLUMNS - col)") auto

declare checkForFloating_seeds.simps [simp del]

fun checkForFloating_neighbors ::
  "(int \<times> int) list \<Rightarrow> (int \<times> int) set \<Rightarrow> (int \<times> int) set \<Rightarrow> (int \<times> int) list \<Rightarrow> grid
     \<Rightarrow> ((int \<times> int) set \<times> (int \<times> int) set \<times> (int \<times> int) list \<times> grid) option" where
  "checkForFloating_neighbors [] visited conn queue g = Some (visited, conn, queue, g)"
| "checkForFloating_neighbors (neighbor # neighbors) visited conn queue g =
     (if neighbor \<in> visited then checkForFloating_neighbors neighbors visited conn queue g
      else
        (case getBubble (fst neighbor) (snd neighbor) g of
           None \<Rightarrow> None
         | Some (bubble, g1) \<Rightarrow>
             (case bubble of
                None \<Rightarrow> checkForFloating_neighbors neighbors visited conn queue g1
              | Some b \<Rightarrow>
                  checkForFloating_neighbors neighbors (insert neighbor visited)
                    (insert neighbor conn) (queue @ [neighbor]) g1)))"

lemma checkForFloating_neighbors_progress:
  assumes "checkForFloating_neighbors ns v c q g = Some (v', c', q', g')"
  shows "occupied g' = occupied g
         \<and> ((v' = v \<and> q' = q) \<or> card (occupied g - v') < card (occupied g - v))"
  using assms
proof (induction ns v c q g rule: checkForFloating_neighbors.induct)
  case (1 visited conn queue g)
  then show ?case by simp
next
  case (2 neighbor neighbors visited conn queue g)
  show ?case
  proof (cases "neighbor \<in> visited")
    case True
    with 2 show ?thesis by simp
  next
    case False
    obtain bubble g1 where gb: "getBubble (fst neighbor) (snd neighbor) g = Some (bubble, g1)"
      by (simp add: getBubble_eq)
    have o: "occupied g1 = occupied g" using gb by (rule getBubble_Some)
    have b: "bubble = bubbleAt g (fst neighbor, snd neighbor)" using gb by (rule getBubble_Some)
    show ?thesis
    proof (cases bubble)
      case None
      from 2(4) False gb None
      have r: "checkForFloating_neighbors neighbors visited conn queue g1 = Some (v', c', q', g')"
        by simp
      from 2(2)[OF False gb refl None r] o show ?thesis by simp
    next
      case (Some bb)
      from 2(4) False gb Some
      have r: "checkForFloating_neighbors neighbors (insert neighbor visited)
                 (insert neighbor conn) (queue @ [neighbor]) g1 = Some (v', c', q', g')"
        by simp
      from 2(3)[OF False gb refl Some r]
      have ih: "occupied g' = occupied g1"
        "card (occupied g1 - v') \<le> card (occupied g1 - insert neighbor visited)"
        by auto
      have "bubbleAt g neighbor = Some bb" using b Some by simp
      then have "neighbor \<in> occupied g" by (simp add: occupied_def)
      then have "card (occupied g - insert neighbor visited) < card (occupied g - visited)"
        using False by (rule card_occupied_insert_less)
      with ih o show ?thesis by simp
    qed
  qed
qed

function checkForFloating_bfs ::
  "(int \<times> int) set \<Rightarrow> (int \<times> int) set \<Rightarrow> (int \<times> int) list \<Rightarrow> grid
     \<Rightarrow> ((int \<times> int) set \<times> grid) option" where
  "checkForFloating_bfs visited conn [] g = Some (conn, g)"
| "checkForFloating_bfs visited conn (current # queue) g =
     (case getNeighbors (fst current) (snd current) g of
        (neighbors, g1) \<Rightarrow>
          (case checkForFloating_neighbors neighbors visited conn queue g1 of
             None \<Rightarrow> None
           | Some (visited', conn', queue', g2) \<Rightarrow>
               checkForFloating_bfs visited' conn' queue' g2))"
  by pat_completeness auto
termination
proof (relation "measures [\<lambda>(visited, conn, queue, g). card (occupied g - visited),
                           \<lambda>(visited, conn, queue, g). length queue]", goal_cases)
  case 1
  show ?case by simp
next
  case (2 visited conn current queue g neighbors g1 x2 visited' ya conn' yb queue' g2)
  from 2(1) have "getNeighbors (fst current) (snd current) g = (neighbors, g1)" by simp
  then have o: "occupied g1 = occupied g" by (rule getNeighbors_eq)
  from 2 have "checkForFloating_neighbors neighbors visited conn queue g1
                 = Some (visited', conn', queue', g2)" by simp
  from checkForFloating_neighbors_progress[OF this] o show ?case by auto
qed

lemma length_setCell: "setCell g row col v = Some g' \<Longrightarrow> length g' = length g"
  by (auto simp: setCell_def split: option.splits)

function checkForFloating_removeCols ::
  "nat \<Rightarrow> nat \<Rightarrow> (int \<times> int) set \<Rightarrow> grid \<Rightarrow> int \<Rightarrow> (grid \<times> int) option" where
  "checkForFloating_removeCols row col conn g removed =
     (if col < COLUMNS then
        (case cellAt g (int row) (int col) of
           None \<Rightarrow> None
         | Some bubble \<Rightarrow>
             (case bubble of
                None \<Rightarrow> checkForFloating_removeCols row (col + 1) conn g removed
              | Some b \<Rightarrow>
                  if (int row, int col) \<notin> conn then
                    (case setCell g (int row) (int col) None of
                       None \<Rightarrow> None
                     | Some g1 \<Rightarrow>
                         checkForFloating_removeCols row (col + 1) conn g1 (removed + 1))
                  else checkForFloating_removeCols row (col + 1) conn g removed))
      else Some (g, removed))"
  by pat_completeness auto
termination
  by (relation "measure (\<lambda>(row, col, conn, g, removed). COLUMNS - col)") auto

declare checkForFloating_removeCols.simps [simp del]

lemma length_checkForFloating_removeCols:
  "checkForFloating_removeCols row col conn g removed = Some (g', removed')
     \<Longrightarrow> length g' = length g"
proof (induction row col conn g removed rule: checkForFloating_removeCols.induct)
  case (1 row col conn g removed)
  note unfold = checkForFloating_removeCols.simps[of row col conn g removed]
  show ?case
  proof (cases "col < COLUMNS")
    case False
    with 1(4) show ?thesis by (simp add: unfold)
  next
    case True
    show ?thesis
    proof (cases "cellAt g (int row) (int col)")
      case None
      with 1(4) True show ?thesis by (simp add: unfold)
    next
      case (Some bubble)
      show ?thesis
      proof (cases bubble)
        case None
        with 1(1)[OF True Some None] 1(4) True Some show ?thesis by (simp add: unfold)
      next
        case b: (Some b)
        show ?thesis
        proof (cases "(int row, int col) \<notin> conn")
          case False
          with 1(3)[OF True Some b] 1(4) True Some b show ?thesis by (simp add: unfold)
        next
          case nc: True
          show ?thesis
          proof (cases "setCell g (int row) (int col) None")
            case None
            with 1(4) True Some b nc show ?thesis by (simp add: unfold)
          next
            case g1: (Some g1)
            from 1(4) True Some b nc g1
            have "checkForFloating_removeCols row (col + 1) conn g1 (removed + 1)
                    = Some (g', removed')" by (simp add: unfold)
            from 1(2)[OF True Some b nc g1 this] length_setCell[OF g1] show ?thesis by (simp add: unfold)
          qed
        qed
      qed
    qed
  qed
qed

function checkForFloating_removeRows ::
  "nat \<Rightarrow> (int \<times> int) set \<Rightarrow> grid \<Rightarrow> int \<Rightarrow> (grid \<times> int) option" where
  "checkForFloating_removeRows row conn g removed =
     (if row < length g then
        (case checkForFloating_removeCols row 0 conn (ensureRow row g) removed of
           None \<Rightarrow> None
         | Some (g1, removed1) \<Rightarrow> checkForFloating_removeRows (row + 1) conn g1 removed1)
      else Some (g, removed))"
  by pat_completeness auto
termination
proof (relation "measure (\<lambda>(row, conn, g, removed). length g - row)", goal_cases)
  case 1
  show ?case by simp
next
  case (2 row conn g removed x2 g1 removed1)
  then have "checkForFloating_removeCols row 0 conn (ensureRow row g) removed
               = Some (g1, removed1)" by simp
  then have "length g1 = length (ensureRow row g)"
    by (rule length_checkForFloating_removeCols)
  with 2(1) show ?case by (simp add: length_ensureRow)
qed

declare checkForFloating_removeRows.simps [simp del]

definition checkForFloating :: "game \<Rightarrow> game option" where
  "checkForFloating s =
     (if length (grid s) = 0 then Some s
      else
        (case checkForFloating_seeds 0 {} {} [] (grid s) of
           None \<Rightarrow> None
         | Some (visited, conn, queue, g1) \<Rightarrow>
             (case checkForFloating_bfs visited conn queue g1 of
                None \<Rightarrow> None
              | Some (conn', g2) \<Rightarrow>
                  (case checkForFloating_removeRows 0 conn' g2 0 of
                     None \<Rightarrow> None
                   | Some (g3, removed) \<Rightarrow>
                       if removed \<noteq> 0
                       then Some (s\<lparr>grid := g3, score := score s + removed * 150\<rparr>)
                       else Some (s\<lparr>grid := g3\<rparr>)))))"

text \<open>
  The bubbles that \<^verbatim>\<open>for (const row of grid) { if (!row) continue; for (const bubble of row)
  { if (!bubble) continue; ... } }\<close> visits, in the order of the visit.
\<close>

definition allBubbles :: "grid \<Rightarrow> bubble list" where
  "allBubbles g =
     concat (map (\<lambda>row. case row of
                          None \<Rightarrow> []
                        | Some cs \<Rightarrow> concat (map (\<lambda>cell. case cell of None \<Rightarrow> [] | Some b \<Rightarrow> [b]) cs))
                 g)"

definition isBoardEmpty :: "grid \<Rightarrow> bool" where
  "isBoardEmpty g = (allBubbles g = [])"

definition hasReachedLimit :: "canvas \<Rightarrow> grid \<Rightarrow> bool" where
  "hasReachedLimit cv g =
     list_ex (\<lambda>bubble. bubble_y bubble + BUBBLE_RADIUS \<ge> SHOOTER_Y cv - 20) (allBubbles g)"

text \<open>A \<^verbatim>\<open>Set\<close> lists its values in the order of their first insertion.\<close>

definition getColorsInPlay :: "grid \<Rightarrow> string list" where
  "getColorsInPlay g =
     foldl (\<lambda>colorSet bubble.
              if bubble_color bubble \<in> set colorSet then colorSet
              else colorSet @ [bubble_color bubble])
       [] (allBubbles g)"

text \<open>
  \<open>random\<close> is the value that the call of \<^verbatim>\<open>Math.random()\<close> returns, a number in
  \<open>[0, 1)\<close>.
\<close>

definition createShooterBubble :: "canvas \<Rightarrow> real \<Rightarrow> grid \<Rightarrow> shooter_bubble" where
  "createShooterBubble cv random g =
     (let availableColors = getColorsInPlay g;
          colorPool = (if length availableColors \<noteq> 0 then availableColors else COLORS)
      in \<lparr>sb_x = CANVAS_WIDTH cv / 2, sb_y = SHOOTER_Y cv,
          sb_color = colorPool ! nat \<lfloor>random * real (length colorPool)\<rfloor>,
          sb_dx = 0, sb_dy = 0, sb_active = False\<rparr>)"

definition endGame :: "bool \<Rightarrow> game \<Rightarrow> game" where
  "endGame clear s = s\<lparr>gameOver := True, message := (if clear then AllCleared else ReachedFloor)\<rparr>"

subsection \<open>Landing\<close>

text \<open>\<open>best\<close> is \<^verbatim>\<open>null\<close> or the record \<^verbatim>\<open>{row, col, dist}\<close>.\<close>

fun findClosestSlot_cols ::
  "canvas \<Rightarrow> real \<Rightarrow> real \<Rightarrow> int \<Rightarrow> int list \<Rightarrow> (int \<times> int \<times> real) option \<Rightarrow> grid
     \<Rightarrow> (int \<times> int \<times> real) option option" where
  "findClosestSlot_cols cv x y row [] best g = Some best"
| "findClosestSlot_cols cv x y row (col # cols) best g =
     (case cellAt g row col of
        None \<Rightarrow> None
      | Some (Some b) \<Rightarrow> findClosestSlot_cols cv x y row cols best g
      | Some None \<Rightarrow>
          (let (cx, cy) = gridToPixel cv row col;
               dist = distance cx cy x y
           in if (case best of None \<Rightarrow> True | Some (brow, bcol, bdist) \<Rightarrow> dist < bdist)
              then findClosestSlot_cols cv x y row cols (Some (row, col, dist)) g
              else findClosestSlot_cols cv x y row cols best g))"

fun findClosestSlot_rows ::
  "canvas \<Rightarrow> real \<Rightarrow> real \<Rightarrow> int \<Rightarrow> int list \<Rightarrow> (int \<times> int \<times> real) option \<Rightarrow> grid
     \<Rightarrow> ((int \<times> int \<times> real) option \<times> grid) option" where
  "findClosestSlot_rows cv x y acol [] best g = Some (best, g)"
| "findClosestSlot_rows cv x y acol (row # rows) best g =
     (let g1 = ensureRow (nat row) g
      in case findClosestSlot_cols cv x y row
                [max 0 (acol - 1) .. min (int COLUMNS - 1) (acol + 1)] best g1 of
           None \<Rightarrow> None
         | Some best1 \<Rightarrow> findClosestSlot_rows cv x y acol rows best1 g1)"

fun findClosestSlot_neighbors ::
  "(int \<times> int) list \<Rightarrow> int \<times> int \<Rightarrow> grid \<Rightarrow> ((int \<times> int) \<times> grid) option" where
  "findClosestSlot_neighbors [] approx g = Some (approx, g)"
| "findClosestSlot_neighbors ((nr, nc) # neighbors) approx g =
     (let g1 = ensureRow (nat nr) g
      in case cellAt g1 nr nc of
           None \<Rightarrow> None
         | Some None \<Rightarrow> Some ((nr, nc), g1)
         | Some (Some b) \<Rightarrow> findClosestSlot_neighbors neighbors approx g1)"

definition findClosestSlot ::
  "canvas \<Rightarrow> real \<Rightarrow> real \<Rightarrow> grid \<Rightarrow> ((int \<times> int) \<times> grid) option" where
  "findClosestSlot cv x y g =
     (let (arow, acol) = pixelToGrid cv x y
      in case findClosestSlot_rows cv x y acol [max 0 (arow - 1) .. arow + 1] None g of
           None \<Rightarrow> None
         | Some (None, g1) \<Rightarrow>
             (let g2 = ensureRow (nat arow) g1
              in case cellAt g2 arow acol of
                   None \<Rightarrow> None
                 | Some None \<Rightarrow> Some ((arow, acol), g2)
                 | Some (Some b) \<Rightarrow>
                     (case getNeighbors arow acol g2 of
                        (neighbors, g3) \<Rightarrow> findClosestSlot_neighbors neighbors (arow, acol) g3))
         | Some (Some (brow, bcol, bdist), g1) \<Rightarrow> Some ((brow, bcol), g1))"

definition snapMovingBubble :: "canvas \<Rightarrow> real \<Rightarrow> game \<Rightarrow> game option" where
  "snapMovingBubble cv random s =
     (case movingBubble s of
        None \<Rightarrow> None
      | Some mb \<Rightarrow>
          (case findClosestSlot cv (mb_x mb) (mb_y mb) (grid s) of
             None \<Rightarrow> None
           | Some ((row, col), g1) \<Rightarrow>
               (let g2 = ensureRow (nat row) g1;
                    bubble = makeGridBubble cv row col (mb_color mb)
                in case setCell g2 row col (Some bubble) of
                     None \<Rightarrow> None
                   | Some g3 \<Rightarrow>
                       (case resolveMatches row col (s\<lparr>grid := g3\<rparr>) of
                          None \<Rightarrow> None
                        | Some s1 \<Rightarrow>
                            (case checkForFloating s1 of
                               None \<Rightarrow> None
                             | Some s2 \<Rightarrow>
                                 (let s3 = (if isBoardEmpty (grid s2) then endGame True s2
                                            else if hasReachedLimit cv (grid s2) then endGame False s2
                                            else s2)
                                  in case nextBubble s3 of
                                       None \<Rightarrow> None
                                     | Some nb \<Rightarrow>
                                         Some (s3\<lparr>currentBubble :=
                                                     Some (nb\<lparr>sb_x := CANVAS_WIDTH cv / 2,
                                                              sb_y := SHOOTER_Y cv, sb_dx := 0,
                                                              sb_dy := 0, sb_active := False\<rparr>),
                                                   nextBubble :=
                                                     Some (createShooterBubble cv random (grid s3)),
                                                   movingBubble := None\<rparr>)))))))"

subsection \<open>The frame update\<close>

definition handlePointer :: "real \<Rightarrow> game \<Rightarrow> game" where
  "handlePointer delta s =
     (let rotationSpeed = 220 * (pi / 180);
          s1 = (if ''ArrowLeft'' \<in> keys s
                then s\<lparr>pointerAngle := min (pointerAngle s + rotationSpeed * delta) POINTER_MAX\<rparr>
                else s)
      in if ''ArrowRight'' \<in> keys s1
         then s1\<lparr>pointerAngle := max (pointerAngle s1 - rotationSpeed * delta) POINTER_MIN\<rparr>
         else s1)"

text \<open>
  \<^verbatim>\<open>updateMovingBubble\<close> in three parts: \<open>moveBubble\<close> is its move of the projectile
  with the bounce off the side walls, \<open>collides\<close> is the test of its loop over the
  bubbles of the grid, and \<open>updateMovingBubble\<close> is the function.
\<close>

definition moveBubble :: "canvas \<Rightarrow> real \<Rightarrow> moving_bubble \<Rightarrow> moving_bubble" where
  "moveBubble cv delta mb =
     (let mb1 = mb\<lparr>mb_x := mb_x mb + mb_dx mb * delta, mb_y := mb_y mb + mb_dy mb * delta\<rparr>
      in if mb_x mb1 \<le> BUBBLE_RADIUS \<or> mb_x mb1 \<ge> CANVAS_WIDTH cv - BUBBLE_RADIUS
         then mb1\<lparr>mb_dx := mb_dx mb1 * (-1),
                  mb_x := clamp (mb_x mb1) BUBBLE_RADIUS (CANVAS_WIDTH cv - BUBBLE_RADIUS)\<rparr>
         else mb1)"

definition collides :: "grid \<Rightarrow> moving_bubble \<Rightarrow> bool" where
  "collides g mb =
     list_ex (\<lambda>bubble. distance (bubble_x bubble) (bubble_y bubble) (mb_x mb) (mb_y mb)
                          \<le> BUBBLE_DIAMETER - 2)
       (allBubbles g)"

definition updateMovingBubble :: "canvas \<Rightarrow> real \<Rightarrow> real \<Rightarrow> game \<Rightarrow> game option" where
  "updateMovingBubble cv random delta s =
     (case movingBubble s of
        None \<Rightarrow> Some s
      | Some mb \<Rightarrow>
          (let mb1 = moveBubble cv delta mb;
               s1 = s\<lparr>movingBubble := Some mb1\<rparr>
           in if mb_y mb1 \<le> TOP_MARGIN + BUBBLE_RADIUS then snapMovingBubble cv random s1
              else if collides (grid s1) mb1 then snapMovingBubble cv random s1
              else if mb_y mb1 > CANVAS_HEIGHT cv - BUBBLE_RADIUS then Some (endGame False s1)
              else Some s1))"

text \<open>
  \<open>random\<close> is the value of the one call of \<^verbatim>\<open>Math.random()\<close> that a landing makes.
  A frame that finds \<open>gameOver\<close> set only draws.  Which frame comes next is the page's
  business (\<^verbatim>\<open>requestAnimationFrame\<close>); the model lets a frame arrive in any state.
\<close>

definition update :: "canvas \<Rightarrow> real \<Rightarrow> real \<Rightarrow> game \<Rightarrow> game option" where
  "update cv random delta s = updateMovingBubble cv random delta (handlePointer delta s)"

definition loop :: "canvas \<Rightarrow> real \<Rightarrow> real \<Rightarrow> game \<Rightarrow> game option" where
  "loop cv random timestamp s =
     (if gameOver s then Some s
      else
        (let delta = (timestamp - lastTime s) / 1000
         in update cv random delta (s\<lparr>lastTime := timestamp\<rparr>)))"

subsection \<open>Launching, initialisation and the event handlers\<close>

definition launchBubble :: "game \<Rightarrow> game" where
  "launchBubble s =
     (case currentBubble s of
        None \<Rightarrow> s
      | Some cb \<Rightarrow>
          if gameOver s \<or> movingBubble s \<noteq> None then s
          else
            (let angle = pointerAngle s;
                 dx = cos angle * LAUNCH_SPEED;
                 dy = - sin angle * LAUNCH_SPEED
             in s\<lparr>movingBubble :=
                     Some \<lparr>mb_x = sb_x cb, mb_y = sb_y cb, mb_color = sb_color cb,
                           mb_dx = dx, mb_dy = dy\<rparr>,
                   currentBubble := Some (cb\<lparr>sb_active := True\<rparr>)\<rparr>))"

text \<open>
  \<open>random\<close> is the sequence of the values that the calls of \<^verbatim>\<open>Math.random()\<close> return
  while one handler runs, and \<open>k\<close> counts the calls made so far.
\<close>

function createInitialGrid_cols ::
  "canvas \<Rightarrow> (nat \<Rightarrow> real) \<Rightarrow> nat \<Rightarrow> nat \<Rightarrow> nat \<Rightarrow> nat \<Rightarrow> grid \<Rightarrow> (nat \<times> grid) option" where
  "createInitialGrid_cols cv random row limit col k g =
     (if col < limit then
        (let color = COLORS ! nat \<lfloor>random k * real (length COLORS)\<rfloor>;
             bubble = makeGridBubble cv (int row) (int col) color
         in case setCell g (int row) (int col) (Some bubble) of
              None \<Rightarrow> None
            | Some g1 \<Rightarrow> createInitialGrid_cols cv random row limit (col + 1) (k + 1) g1)
      else Some (k, g))"
  by pat_completeness auto
termination
  by (relation "measure (\<lambda>(cv, random, row, limit, col, k, g). limit - col)") auto

declare createInitialGrid_cols.simps [simp del]

function createInitialGrid_rows ::
  "canvas \<Rightarrow> (nat \<Rightarrow> real) \<Rightarrow> nat \<Rightarrow> nat \<Rightarrow> nat \<Rightarrow> grid \<Rightarrow> (nat \<times> grid) option" where
  "createInitialGrid_rows cv random initialRows row k g =
     (if row < initialRows then
        (let g1 = ensureRow row g;
             limit = COLUMNS - (if row mod 2 \<noteq> 0 then 1 else 0)
         in case createInitialGrid_cols cv random row limit 0 k g1 of
              None \<Rightarrow> None
            | Some (k1, g2) \<Rightarrow> createInitialGrid_rows cv random initialRows (row + 1) k1 g2)
      else Some (k, g))"
  by pat_completeness auto
termination
  by (relation "measure (\<lambda>(cv, random, initialRows, row, k, g). initialRows - row)") auto

declare createInitialGrid_rows.simps [simp del]

definition createInitialGrid :: "canvas \<Rightarrow> (nat \<Rightarrow> real) \<Rightarrow> grid \<Rightarrow> (nat \<times> grid) option" where
  "createInitialGrid cv random g = createInitialGrid_rows cv random 8 0 0 g"

definition init :: "canvas \<Rightarrow> (nat \<Rightarrow> real) \<Rightarrow> game option" where
  "init cv random =
     (case createInitialGrid cv random [] of
        None \<Rightarrow> None
      | Some (k, g) \<Rightarrow>
          Some \<lparr>grid = g, pointerAngle = pi / 2,
                currentBubble = Some (createShooterBubble cv (random k) g),
                nextBubble = Some (createShooterBubble cv (random (k + 1)) g),
                movingBubble = None, keys = {}, lastTime = 0, score = 0, gameOver = False,
                message = NoMessage\<rparr>)"

text \<open>
  \<^verbatim>\<open>Math.atan2(y, x)\<close> on the reals (the two zeros of floating point are one number
  here).
\<close>

definition atan2 :: "real \<Rightarrow> real \<Rightarrow> real" where
  "atan2 y x =
     (if x > 0 then arctan (y / x)
      else if x < 0 then (if y \<ge> 0 then arctan (y / x) + pi else arctan (y / x) - pi)
      else if y > 0 then pi / 2
      else if y < 0 then - (pi / 2)
      else 0)"

text \<open>
  The handlers take the position of the pointer relative to the canvas, that is
  \<^verbatim>\<open>event.clientX - rect.left\<close> and \<^verbatim>\<open>event.clientY - rect.top\<close>.
\<close>

definition handlePointerMove :: "canvas \<Rightarrow> real \<Rightarrow> real \<Rightarrow> game \<Rightarrow> game" where
  "handlePointerMove cv x y s =
     (let angle = atan2 (SHOOTER_Y cv - y) (x - CANVAS_WIDTH cv / 2);
          clamped = clamp angle POINTER_MIN POINTER_MAX
      in s\<lparr>pointerAngle := clamped\<rparr>)"

definition handlePointerDown :: "game \<Rightarrow> game" where
  "handlePointerDown s = launchBubble s"

definition handleTouchStart :: "canvas \<Rightarrow> real \<Rightarrow> real \<Rightarrow> game \<Rightarrow> game" where
  "handleTouchStart cv x y s =
     (let angle = atan2 (SHOOTER_Y cv - y) (x - CANVAS_WIDTH cv / 2)
      in launchBubble (s\<lparr>pointerAngle := clamp angle POINTER_MIN POINTER_MAX\<rparr>))"

definition handleTouchMove :: "canvas \<Rightarrow> real \<Rightarrow> real \<Rightarrow> game \<Rightarrow> game" where
  "handleTouchMove cv x y s =
     (let angle = atan2 (SHOOTER_Y cv - y) (x - CANVAS_WIDTH cv / 2)
      in s\<lparr>pointerAngle := clamp angle POINTER_MIN POINTER_MAX\<rparr>)"

text \<open>\<open>key\<close> is \<^verbatim>\<open>event.key\<close> and \<open>repeat\<close> is \<^verbatim>\<open>event.repeat\<close>.\<close>

definition handleKeyDown ::
  "canvas \<Rightarrow> (nat \<Rightarrow> real) \<Rightarrow> string \<Rightarrow> bool \<Rightarrow> game \<Rightarrow> game option" where
  "handleKeyDown cv random key repeat s =
     (if repeat then Some s
      else
        (let s1 = (if key = ''ArrowLeft'' \<or> key = ''ArrowRight''
                   then s\<lparr>keys := insert key (keys s)\<rparr> else s);
             s2 = (if key = '' '' \<or> key = ''Spacebar'' then launchBubble s1 else s1)
         in if key = ''Enter'' \<and> gameOver s2 then init cv random else Some s2))"

definition handleKeyUp :: "string \<Rightarrow> game \<Rightarrow> game" where
  "handleKeyUp key s =
     (if key = ''ArrowLeft'' \<or> key = ''ArrowRight'' then s\<lparr>keys := keys s - {key}\<rparr> else s)"

text \<open>
  What the page can deliver to the script: an animation frame with its timestamp, and
  the input events that the script listens to.
\<close>

datatype event =
    Frame real
  | KeyDown string bool
  | KeyUp string
  | MouseMove real real
  | Click
  | TouchStart real real
  | TouchMove real real

fun step :: "canvas \<Rightarrow> (nat \<Rightarrow> real) \<Rightarrow> event \<Rightarrow> game \<Rightarrow> game option" where
  "step cv random (Frame timestamp) s = loop cv (random 0) timestamp s"
| "step cv random (KeyDown key repeat) s = handleKeyDown cv random key repeat s"
| "step cv random (KeyUp key) s = Some (handleKeyUp key s)"
| "step cv random (MouseMove x y) s = Some (handlePointerMove cv x y s)"
| "step cv random Click s = Some (handlePointerDown s)"
| "step cv random (TouchStart x y) s = Some (handleTouchStart cv x y s)"
| "step cv random (TouchMove x y) s = Some (handleTouchMove cv x y s)"

section \<open>Properties\<close>

subsection \<open>Geometry: grid to pixel and back\<close>

lemma sqrt3_bounds: "1 < sqrt 3" "sqrt 3 < 2"
  by (rule real_less_rsqrt, simp) (rule real_less_lsqrt, simp_all)

lemma round_row: "round (real_of_int row + 1 / sqrt 3) = row + 1"
proof (rule round_unique)
  have "1 / sqrt 3 < 1" using sqrt3_bounds(1) by simp
  then show "real_of_int row + 1 / sqrt 3 - 1 / 2 < real_of_int (row + 1)" by linarith
  have "1 / 2 < 1 / sqrt 3" using sqrt3_bounds by (simp add: field_simps)
  then show "real_of_int (row + 1) \<le> real_of_int row + 1 / sqrt 3 + 1 / 2" by linarith
qed

text \<open>
  What the composition computes on every cell of the grid: the centre of a cell lies
  \<open>BUBBLE_RADIUS\<close> below and to the right of the point that \<open>pixelToGrid\<close> rounds
  to the cell, and \<open>BUBBLE_RADIUS / VERTICAL_SPACING = 1 / sqrt 3 > 1 / 2\<close>, so the row
  comes back one too large.
\<close>

lemma pixelToGrid_gridToPixel:
  assumes "0 \<le> row" "0 \<le> col" "col < int COLUMNS"
  shows "pixelToGrid cv (fst (gridToPixel cv row col)) (snd (gridToPixel cv row col))
           = (row + 1, if row mod 2 \<noteq> 0 then min (col + 1) (int COLUMNS - 1) else col)"
proof -
  define X where "X = fst (gridToPixel cv row col)"
  define Y where "Y = snd (gridToPixel cv row col)"
  have "(Y - TOP_MARGIN) / VERTICAL_SPACING = real_of_int row + 1 / sqrt 3"
    by (simp add: Y_def gridToPixel_def Let_def VERTICAL_SPACING_def BUBBLE_RADIUS_def field_simps)
  then have "round ((Y - TOP_MARGIN) / VERTICAL_SPACING) = row + 1"
    by (simp only: round_row)
  then have R: "max 0 (round ((Y - TOP_MARGIN) / VERTICAL_SPACING)) = row + 1"
    using assms(1) by linarith
  have C: "max 0 (round ((X - LEFT_OFFSET cv - (if (row + 1) mod 2 \<noteq> 0 then BUBBLE_RADIUS else 0))
              / BUBBLE_DIAMETER)) = (if row mod 2 \<noteq> 0 then col + 1 else col)"
  proof (cases "row mod 2 \<noteq> 0")
    case True
    then have e: "(row + 1) mod 2 = 0" by presburger
    have "(X - LEFT_OFFSET cv - 0) / BUBBLE_DIAMETER = real_of_int (col + 1)"
      using True
      by (simp add: X_def gridToPixel_def Let_def BUBBLE_DIAMETER_def BUBBLE_RADIUS_def field_simps)
    then have "round ((X - LEFT_OFFSET cv - 0) / BUBBLE_DIAMETER) = col + 1"
      by (simp only: round_of_int)
    then show ?thesis using True e assms(2) by simp
  next
    case False
    then have e: "(row + 1) mod 2 \<noteq> 0" by presburger
    have "(X - LEFT_OFFSET cv - BUBBLE_RADIUS) / BUBBLE_DIAMETER = real_of_int col"
      using False
      by (simp add: X_def gridToPixel_def Let_def BUBBLE_DIAMETER_def BUBBLE_RADIUS_def field_simps)
    then have "round ((X - LEFT_OFFSET cv - BUBBLE_RADIUS) / BUBBLE_DIAMETER) = col"
      by (simp only: round_of_int)
    then show ?thesis using False e assms(2) by simp
  qed
  have "pixelToGrid cv X Y
          = (row + 1, min (if row mod 2 \<noteq> 0 then col + 1 else col) (int COLUMNS - 1))"
    unfolding pixelToGrid_def Let_def R C ..
  moreover have "min col (int COLUMNS - 1) = col" using assms(3) by simp
  ultimately show ?thesis unfolding X_def Y_def by (simp split: if_splits)
qed

text \<open>
  C1.  The claim is that \<open>pixelToGrid\<close> applied to the pixel coordinates
  \<open>gridToPixel row col\<close> returns \<open>(row, col)\<close> for every row \<open>\<ge> 0\<close> and every valid
  column.  The script does not do that: at row 0, column 0, for every canvas, the centre
  of the cell is \<open>(LEFT_OFFSET + 16, 96)\<close>, and \<open>pixelToGrid\<close> maps it to row 1, column 0,
  because \<open>Math.round (16 / (sqrt 3 * 16)) = Math.round 0.577\<dots> = 1\<close>.
\<close>

theorem pixelToGrid_gridToPixel_origin:
  "pixelToGrid cv (fst (gridToPixel cv 0 0)) (snd (gridToPixel cv 0 0)) = (1, 0)"
  using pixelToGrid_gridToPixel[of 0 0 cv] by (simp add: COLUMNS_def)

subsection \<open>Hexagonal adjacency\<close>

text \<open>
  C5.  For every row and column, \<open>getNeighbors\<close> returns the cells obtained by adding
  the offsets \<open>(-1,0), (-1,-1), (0,-1), (0,1), (1,0), (1,-1)\<close> on an even row, and the
  mirrored offsets \<open>(-1,0), (-1,1), (0,-1), (0,1), (1,0), (1,1)\<close> on an odd row, in that
  order, restricted to the cells with a row \<open>\<ge> 0\<close> and a column in
  \<open>[0, COLUMNS - 1]\<close>; so it returns at most six cells, all of them in that range.
\<close>

theorem getNeighbors_table:
  "fst (getNeighbors row col g) =
     filter inRange
       (map (\<lambda>(orow, ocol). (row + orow, col + ocol))
         (if even row then [(-1, 0), (-1, -1), (0, -1), (0, 1), (1, 0), (1, -1)]
          else [(-1, 0), (-1, 1), (0, -1), (0, 1), (1, 0), (1, 1)]))
   \<and> length (fst (getNeighbors row col g)) \<le> 6
   \<and> list_all inRange (fst (getNeighbors row col g))"
proof -
  have e: "row mod 2 \<noteq> 0 \<longleftrightarrow> \<not> even row" by presburger
  have eq: "fst (getNeighbors row col g) =
     filter inRange
       (map (\<lambda>(orow, ocol). (row + orow, col + ocol))
         (if even row then [(-1, 0), (-1, -1), (0, -1), (0, 1), (1, 0), (1, -1)]
          else [(-1, 0), (-1, 1), (0, -1), (0, 1), (1, 0), (1, 1)]))"
    unfolding getNeighbors_def Let_def getNeighbors_loop_fst e offsetsOdd_def offsetsEven_def
    by simp
  have "length (fst (getNeighbors row col g)) \<le>
          length (map (\<lambda>(orow, ocol). (row + orow, col + ocol))
            (if even row then [(-1, 0), (-1, -1), (0, -1), (0, 1), (1, 0), (1, -1)]
             else [(-1::int, 0::int), (-1, 1), (0, -1), (0, 1), (1, 0), (1, 1)]))"
    unfolding eq by (rule length_filter_le)
  then have len: "length (fst (getNeighbors row col g)) \<le> 6" by (simp split: if_splits)
  have "list_all inRange (fst (getNeighbors row col g))"
    unfolding eq by (simp add: list_all_iff)
  with eq len show ?thesis by blast
qed

theorem getNeighbors_table_witness:
  "fst (getNeighbors 1 0 []) = [(0, 0), (0, 1), (1, 1), (2, 0), (2, 1)]
   \<and> list_all inRange [(0, 0), (0, 1), (1, 1), (2, 0), (2, 1)]"
  using getNeighbors_table[of 1 0 "[]"] by (simp add: inRange_def COLUMNS_def)

subsection \<open>Frames of the operations on the game state\<close>

definition aimInRange :: "real \<Rightarrow> bool" where
  "aimInRange a = (POINTER_MIN \<le> a \<and> a \<le> POINTER_MAX)"

lemma pointer_bounds: "POINTER_MIN \<le> pi / 2" "pi / 2 \<le> POINTER_MAX" "POINTER_MIN \<le> POINTER_MAX"
  using pi_gt_zero by (simp_all add: POINTER_MIN_def POINTER_MAX_def)

lemma aimInRange_clamp: "aimInRange (clamp a POINTER_MIN POINTER_MAX)"
  using pointer_bounds(3) by (simp add: aimInRange_def clamp_def)

lemma pointerAngle_launchBubble: "pointerAngle (launchBubble s) = pointerAngle s"
  by (simp add: launchBubble_def Let_def split: option.splits)

lemma resolveMatches_frame:
  assumes "resolveMatches row col s = Some s'"
  shows "\<exists>g sc. s' = s\<lparr>grid := g, score := sc\<rparr>"
proof (cases "cellAt (grid s) row col")
  case None
  with assms show ?thesis by (simp add: resolveMatches_def)
next
  case (Some cell)
  show ?thesis
  proof (cases cell)
    case None
    with assms Some have "s' = s" by (simp add: resolveMatches_def)
    then have "s' = s\<lparr>grid := grid s, score := score s\<rparr>" by simp
    then show ?thesis by blast
  next
    case origin: (Some origin)
    show ?thesis
    proof (cases "collectCluster row col (bubble_color origin) (grid s)")
      case None
      with assms Some origin show ?thesis by (simp add: resolveMatches_def)
    next
      case cl: (Some r)
      obtain cluster g1 where r: "r = (cluster, g1)" by (cases r)
      show ?thesis
      proof (cases "length cluster \<ge> 3")
        case True
        with assms Some origin cl r
        have "s' = s\<lparr>grid := removeCluster cluster g1,
                      score := score s + int (length cluster) * 100\<rparr>"
          by (simp add: resolveMatches_def)
        then show ?thesis by blast
      next
        case False
        with assms Some origin cl r have "s' = s\<lparr>grid := g1\<rparr>"
          by (simp add: resolveMatches_def)
        then have "s' = s\<lparr>grid := g1, score := score s\<rparr>" by simp
        then show ?thesis by blast
      qed
    qed
  qed
qed

lemma checkForFloating_cases:
  assumes "checkForFloating s = Some s'"
  obtains (empty) "length (grid s) = 0" "s' = s"
  | (cleaned) visited conn queue g1 conn' g2 g3 removed where
      "length (grid s) \<noteq> 0"
      "checkForFloating_seeds 0 {} {} [] (grid s) = Some (visited, conn, queue, g1)"
      "checkForFloating_bfs visited conn queue g1 = Some (conn', g2)"
      "checkForFloating_removeRows 0 conn' g2 0 = Some (g3, removed)"
      "s' = s\<lparr>grid := g3, score := score s + removed * 150\<rparr>"
proof (cases "length (grid s) = 0")
  case True
  with assms have "s' = s" by (simp add: checkForFloating_def)
  with True show ?thesis by (rule empty)
next
  case False
  show ?thesis
  proof (cases "checkForFloating_seeds 0 {} {} [] (grid s)")
    case None
    with assms False show ?thesis by (simp add: checkForFloating_def)
  next
    case (Some r1)
    obtain visited conn queue g1 where r1: "r1 = (visited, conn, queue, g1)"
      by (cases r1) auto
    show ?thesis
    proof (cases "checkForFloating_bfs visited conn queue g1")
      case None
      with assms False Some r1 show ?thesis by (simp add: checkForFloating_def)
    next
      case bfs: (Some r2)
      obtain conn' g2 where r2: "r2 = (conn', g2)" by (cases r2)
      show ?thesis
      proof (cases "checkForFloating_removeRows 0 conn' g2 0")
        case None
        with assms False Some r1 bfs r2 show ?thesis by (simp add: checkForFloating_def)
      next
        case rm: (Some r3)
        obtain g3 removed where r3: "r3 = (g3, removed)" by (cases r3)
        from assms False Some r1 bfs r2 rm r3
        have e: "s' = (if removed \<noteq> 0 then s\<lparr>grid := g3, score := score s + removed * 150\<rparr>
                       else s\<lparr>grid := g3\<rparr>)"
          by (auto simp: checkForFloating_def split: if_splits)
        have "s' = s\<lparr>grid := g3, score := score s + removed * 150\<rparr>"
          unfolding e by (cases "removed = 0") simp_all
        with False Some r1 bfs r2 rm r3 show ?thesis by (intro cleaned) simp_all
      qed
    qed
  qed
qed

lemma checkForFloating_frame:
  assumes "checkForFloating s = Some s'"
  shows "\<exists>g sc. s' = s\<lparr>grid := g, score := sc\<rparr>"
  using assms
proof (cases rule: checkForFloating_cases)
  case empty
  then have "s' = s\<lparr>grid := grid s, score := score s\<rparr>" by simp
  then show ?thesis by blast
next
  case cleaned
  then show ?thesis by blast
qed

lemma pointerAngle_resolveMatches:
  "resolveMatches row col s = Some s' \<Longrightarrow> pointerAngle s' = pointerAngle s"
  by (drule resolveMatches_frame) auto

lemma pointerAngle_checkForFloating:
  "checkForFloating s = Some s' \<Longrightarrow> pointerAngle s' = pointerAngle s"
  by (drule checkForFloating_frame) auto

lemma pointerAngle_snapMovingBubble:
  assumes "snapMovingBubble cv random s = Some s'"
  shows "pointerAngle s' = pointerAngle s"
proof -
  from assms obtain g3 row col s1 s2 where
    r: "resolveMatches row col (s\<lparr>grid := g3\<rparr>) = Some s1" and
    c: "checkForFloating s1 = Some s2" and
    p: "pointerAngle s' = pointerAngle s2"
    by (auto simp: snapMovingBubble_def Let_def endGame_def split: option.splits if_splits)
  from pointerAngle_resolveMatches[OF r] pointerAngle_checkForFloating[OF c] p
  show ?thesis by simp
qed

lemma pointerAngle_updateMovingBubble:
  assumes "updateMovingBubble cv random delta s = Some s'"
  shows "pointerAngle s' = pointerAngle s"
proof (cases "movingBubble s")
  case None
  with assms show ?thesis by (simp add: updateMovingBubble_def)
next
  case (Some mb)
  define s1 where "s1 = s\<lparr>movingBubble := Some (moveBubble cv delta mb)\<rparr>"
  from assms Some have "snapMovingBubble cv random s1 = Some s' \<or> s' = endGame False s1 \<or> s' = s1"
    by (auto simp: updateMovingBubble_def Let_def s1_def split: if_splits)
  then show ?thesis
    by (auto simp: s1_def endGame_def dest: pointerAngle_snapMovingBubble)
qed

lemma aimInRange_handlePointer:
  assumes "aimInRange (pointerAngle s)" "0 \<le> delta"
  shows "aimInRange (pointerAngle (handlePointer delta s))"
proof -
  have "0 \<le> 220 * (pi / 180) * delta" using assms(2) pi_gt_zero by simp
  with assms(1) pointer_bounds(3) show ?thesis
    by (auto simp: handlePointer_def Let_def aimInRange_def min_def max_def)
qed

lemma pointerAngle_init: "init cv random = Some s \<Longrightarrow> pointerAngle s = pi / 2"
  by (auto simp: init_def split: option.splits)

subsection \<open>Initialisation succeeds\<close>

lemma rowAt_setCell:
  assumes "setCell g row col v = Some g'"
  shows "rowAt g' r \<noteq> None \<longleftrightarrow> rowAt g r \<noteq> None"
  using assms
  by (auto simp: setCell_def rowAt_def nth_list_update split: option.splits if_splits)

lemma setCell_total: "rowAt g row \<noteq> None \<Longrightarrow> \<exists>g'. setCell g row col v = Some g'"
  by (auto simp: setCell_def)

lemma createInitialGrid_cols_total:
  "rowAt g (int row) \<noteq> None \<Longrightarrow>
     \<exists>k' g'. createInitialGrid_cols cv random row limit col k g = Some (k', g')"
proof (induction cv random row limit col k g rule: createInitialGrid_cols.induct)
  case (1 cv random row limit col k g)
  note unfold = createInitialGrid_cols.simps[of cv random row limit col k g]
  show ?case
  proof (cases "col < limit")
    case False
    then show ?thesis by (simp add: unfold)
  next
    case True
    define bubble where
      "bubble = makeGridBubble cv (int row) (int col) (COLORS ! nat \<lfloor>random k * real (length COLORS)\<rfloor>)"
    from setCell_total[OF 1(2)] obtain g1 where
      g1: "setCell g (int row) (int col) (Some bubble) = Some g1" by blast
    from rowAt_setCell[OF g1] 1(2) have "rowAt g1 (int row) \<noteq> None" by simp
    from 1(1)[OF True refl bubble_def g1 this]
    show ?thesis using True g1 by (simp add: unfold Let_def bubble_def)
  qed
qed

lemma createInitialGrid_rows_total:
  "\<exists>k' g'. createInitialGrid_rows cv random initialRows row k g = Some (k', g')"
proof (induction cv random initialRows row k g rule: createInitialGrid_rows.induct)
  case (1 cv random initialRows row k g)
  note unfold = createInitialGrid_rows.simps[of cv random initialRows row k g]
  show ?case
  proof (cases "row < initialRows")
    case False
    then show ?thesis by (simp add: unfold)
  next
    case True
    define limit where "limit = COLUMNS - (if row mod 2 \<noteq> 0 then 1 else 0)"
    have "rowAt (ensureRow row g) (int row) \<noteq> None"
      using rowAt_ensureRow_same[of "int row" g] by simp
    from createInitialGrid_cols_total[OF this]
    obtain k1 g2 where c: "createInitialGrid_cols cv random row limit 0 k (ensureRow row g) = Some (k1, g2)"
      by blast
    from 1[OF True refl limit_def c refl]
    show ?thesis using True c by (simp add: unfold Let_def limit_def)
  qed
qed

lemma init_total: "\<exists>s0. init cv random = Some s0"
  using createInitialGrid_rows_total[of cv random 8 0 0 "[]"]
  by (auto simp: init_def createInitialGrid_def)

subsection \<open>Example states\<close>

definition exampleCanvas :: canvas where
  "exampleCanvas = \<lparr>CANVAS_WIDTH = 480, CANVAS_HEIGHT = 640\<rparr>"

definition exampleShooter :: shooter_bubble where
  "exampleShooter = \<lparr>sb_x = 240, sb_y = 570, sb_color = ''#ff6b6b'', sb_dx = 0, sb_dy = 0,
                      sb_active = False\<rparr>"

text \<open>An empty board with no projectile in flight.\<close>

definition exampleIdle :: game where
  "exampleIdle =
     \<lparr>grid = [], pointerAngle = pi / 2, currentBubble = Some exampleShooter,
      nextBubble = Some exampleShooter, movingBubble = None,
      keys = {}, lastTime = 0, score = 0, gameOver = False, message = NoMessage\<rparr>"

text \<open>The same board with a projectile at height \<open>y\<close>, moving straight up.\<close>

definition exampleFlight :: "real \<Rightarrow> game" where
  "exampleFlight y =
     exampleIdle\<lparr>movingBubble :=
       Some \<lparr>mb_x = 240, mb_y = y, mb_color = ''#ff6b6b'', mb_dx = 0, mb_dy = - 400\<rparr>\<rparr>"

lemma exampleCanvas_simps:
  "CANVAS_WIDTH exampleCanvas = 480" "CANVAS_HEIGHT exampleCanvas = 640"
  by (simp_all add: exampleCanvas_def)

subsection \<open>The aim angle\<close>

text \<open>
  C8.  The aim angle starts at 90 degrees, inside \<open>[POINTER_MIN, POINTER_MAX]\<close>, that is
  \<open>[20, 160]\<close> degrees, and every step of the game keeps it there: mouse and touch
  input set it to a clamped value whatever the position of the pointer, and a frame rotates
  it by the arrow keys and clamps it, for every frame whose timestamp is not earlier than
  the one before (the elapsed time is not negative).
\<close>

theorem pointerAngle_clamped:
  "(\<exists>s0. init cv random = Some s0 \<and> pointerAngle s0 = pi / 2 \<and> aimInRange (pointerAngle s0))
   \<and> (aimInRange (pointerAngle s) \<and> (\<forall>timestamp. e = Frame timestamp \<longrightarrow> lastTime s \<le> timestamp)
        \<and> step cv random e s = Some s' \<longrightarrow> aimInRange (pointerAngle s'))"
proof (intro conjI impI)
  from init_total obtain s0 where s0: "init cv random = Some s0" by blast
  then have "pointerAngle s0 = pi / 2" by (rule pointerAngle_init)
  moreover from this have "aimInRange (pointerAngle s0)"
    using pointer_bounds by (simp add: aimInRange_def)
  ultimately show "\<exists>s0. init cv random = Some s0 \<and> pointerAngle s0 = pi / 2
                        \<and> aimInRange (pointerAngle s0)"
    using s0 by blast
next
  assume a: "aimInRange (pointerAngle s) \<and> (\<forall>timestamp. e = Frame timestamp \<longrightarrow> lastTime s \<le> timestamp)
        \<and> step cv random e s = Some s'"
  show "aimInRange (pointerAngle s')"
  proof (cases e)
    case (Frame t)
    show ?thesis
    proof (cases "gameOver s")
      case True
      with a Frame show ?thesis by (auto simp: loop_def)
    next
      case False
      define delta where "delta = (t - lastTime s) / 1000"
      from a Frame have d: "0 \<le> delta" by (auto simp: delta_def)
      from a Frame False
      have "updateMovingBubble cv (random 0) delta (handlePointer delta (s\<lparr>lastTime := t\<rparr>)) = Some s'"
        by (auto simp: loop_def update_def Let_def delta_def)
      then have "pointerAngle s' = pointerAngle (handlePointer delta (s\<lparr>lastTime := t\<rparr>))"
        by (rule pointerAngle_updateMovingBubble)
      moreover have "aimInRange (pointerAngle (handlePointer delta (s\<lparr>lastTime := t\<rparr>)))"
        using a d by (intro aimInRange_handlePointer) auto
      ultimately show ?thesis by simp
    qed
  next
    case (KeyDown key repeat)
    define s1 where "s1 = (if key = ''ArrowLeft'' \<or> key = ''ArrowRight''
                           then s\<lparr>keys := insert key (keys s)\<rparr> else s)"
    define s2 where "s2 = (if key = '' '' \<or> key = ''Spacebar'' then launchBubble s1 else s1)"
    have p2: "pointerAngle s2 = pointerAngle s"
      by (simp add: s2_def s1_def pointerAngle_launchBubble)
    have h: "handleKeyDown cv random key repeat s =
               (if repeat then Some s
                else if key = ''Enter'' \<and> gameOver s2 then init cv random else Some s2)"
      unfolding handleKeyDown_def Let_def s1_def s2_def ..
    from a KeyDown have r: "handleKeyDown cv random key repeat s = Some s'" by auto
    show ?thesis
    proof (cases "\<not> repeat \<and> key = ''Enter'' \<and> gameOver s2")
      case True
      with r h have "init cv random = Some s'" by simp
      then have "pointerAngle s' = pi / 2" by (rule pointerAngle_init)
      then show ?thesis using pointer_bounds by (simp add: aimInRange_def)
    next
      case False
      with r h have "s' = s \<or> s' = s2" by (auto split: if_splits)
      with p2 have "pointerAngle s' = pointerAngle s" by auto
      with a show ?thesis by auto
    qed
  next
    case (KeyUp key)
    with a show ?thesis by (auto simp: handleKeyUp_def)
  next
    case (MouseMove x y)
    with a show ?thesis by (auto simp: handlePointerMove_def Let_def aimInRange_clamp)
  next
    case Click
    with a show ?thesis by (auto simp: handlePointerDown_def pointerAngle_launchBubble)
  next
    case (TouchStart x y)
    with a show ?thesis
      by (auto simp: handleTouchStart_def Let_def pointerAngle_launchBubble aimInRange_clamp)
  next
    case (TouchMove x y)
    with a show ?thesis by (auto simp: handleTouchMove_def Let_def aimInRange_clamp)
  qed
qed

theorem pointerAngle_clamped_witness:
  "aimInRange (pointerAngle (exampleIdle\<lparr>keys := {''ArrowLeft''}\<rparr>))
   \<and> step exampleCanvas (\<lambda>k. 0) (Frame 1000) (exampleIdle\<lparr>keys := {''ArrowLeft''}\<rparr>)
       = Some (exampleIdle\<lparr>keys := {''ArrowLeft''}, lastTime := 1000, pointerAngle := POINTER_MAX\<rparr>)
   \<and> aimInRange POINTER_MAX"
proof -
  have a: "aimInRange (pointerAngle (exampleIdle\<lparr>keys := {''ArrowLeft''}\<rparr>))"
    using pointer_bounds by (simp add: exampleIdle_def aimInRange_def)
  have "min (pi / 2 + 220 * (pi / 180) * ((1000 - 0) / 1000)) POINTER_MAX = POINTER_MAX"
    using pi_gt_zero by (simp add: POINTER_MAX_def)
  then have s: "step exampleCanvas (\<lambda>k. 0) (Frame 1000) (exampleIdle\<lparr>keys := {''ArrowLeft''}\<rparr>)
       = Some (exampleIdle\<lparr>keys := {''ArrowLeft''}, lastTime := 1000, pointerAngle := POINTER_MAX\<rparr>)"
    by (simp add: loop_def update_def handlePointer_def updateMovingBubble_def exampleIdle_def Let_def)
  from pointerAngle_clamped[of exampleCanvas "\<lambda>k. 0" "exampleIdle\<lparr>keys := {''ArrowLeft''}\<rparr>"
      "Frame 1000"
      "exampleIdle\<lparr>keys := {''ArrowLeft''}, lastTime := 1000, pointerAngle := POINTER_MAX\<rparr>"] a s
  have "aimInRange POINTER_MAX" by (simp add: exampleIdle_def)
  with a s show ?thesis by blast
qed

subsection \<open>Loss at the bottom of the canvas\<close>






subsection \<open>The terminal state\<close>

text \<open>The page delivers frames and input events to the script one at a time.\<close>

fun run :: "canvas \<Rightarrow> ((nat \<Rightarrow> real) \<times> event) list \<Rightarrow> game \<Rightarrow> game option" where
  "run cv [] s = Some s"
| "run cv ((random, e) # es) s =
     (case step cv random e s of None \<Rightarrow> None | Some s' \<Rightarrow> run cv es s')"

lemma launchBubble_gameOver: "gameOver s \<Longrightarrow> launchBubble s = s"
  by (simp add: launchBubble_def split: option.splits)

lemma step_gameOver:
  assumes "gameOver s" "e \<noteq> KeyDown ''Enter'' False"
  shows "\<exists>s'. step cv random e s = Some s' \<and> gameOver s' \<and> grid s' = grid s
              \<and> score s' = score s \<and> movingBubble s' = movingBubble s \<and> message s' = message s"
proof (cases e)
  case (Frame t)
  with assms show ?thesis by (simp add: loop_def)
next
  case (KeyDown key repeat)
  with assms show ?thesis
    by (auto simp: handleKeyDown_def Let_def launchBubble_gameOver)
next
  case (KeyUp key)
  with assms show ?thesis by (simp add: handleKeyUp_def)
next
  case (MouseMove x y)
  with assms show ?thesis by (simp add: handlePointerMove_def Let_def)
next
  case Click
  with assms show ?thesis by (simp add: handlePointerDown_def launchBubble_gameOver)
next
  case (TouchStart x y)
  with assms show ?thesis by (simp add: handleTouchStart_def Let_def launchBubble_gameOver)
next
  case (TouchMove x y)
  with assms show ?thesis by (simp add: handleTouchMove_def Let_def)
qed

text \<open>
  C9.  Once \<open>gameOver\<close> holds, every sequence of frames and input events that contains
  no fresh press of Enter runs without failure and leaves \<open>gameOver\<close> set and the grid,
  the score, the projectile and the message as they are.
\<close>

theorem gameOver_terminal:
  assumes "gameOver s" and "\<forall>(random, e) \<in> set es. e \<noteq> KeyDown ''Enter'' False"
  shows "\<exists>s'. run cv es s = Some s' \<and> gameOver s' \<and> grid s' = grid s \<and> score s' = score s
              \<and> movingBubble s' = movingBubble s \<and> message s' = message s"
  using assms
proof (induction es arbitrary: s)
  case Nil
  then show ?case by simp
next
  case (Cons re es)
  obtain random e where re: "re = (random, e)" by (cases re)
  with Cons.prems have "e \<noteq> KeyDown ''Enter'' False" by simp
  from step_gameOver[OF Cons.prems(1) this, of cv random]
  obtain s1 where s1: "step cv random e s = Some s1" "gameOver s1" "grid s1 = grid s"
    "score s1 = score s" "movingBubble s1 = movingBubble s" "message s1 = message s" by blast
  from Cons.prems have "\<forall>(random, e) \<in> set es. e \<noteq> KeyDown ''Enter'' False" by simp
  from Cons.IH[OF s1(2) this] s1 re show ?case by simp
qed

theorem gameOver_terminal_witness:
  "gameOver ((exampleFlight 626)\<lparr>gameOver := True, message := ReachedFloor\<rparr>)
   \<and> (\<exists>s'. run exampleCanvas
               [(\<lambda>k. 0, Frame 16), (\<lambda>k. 0, Click), (\<lambda>k. 0, KeyDown '' '' False),
                (\<lambda>k. 0, TouchStart 100 100), (\<lambda>k. 0, KeyDown ''Enter'' True)]
               ((exampleFlight 626)\<lparr>gameOver := True, message := ReachedFloor\<rparr>) = Some s'
          \<and> gameOver s' \<and> grid s' = [] \<and> score s' = 0
          \<and> movingBubble s' = movingBubble (exampleFlight 626) \<and> message s' = ReachedFloor)"
  using gameOver_terminal[of "(exampleFlight 626)\<lparr>gameOver := True, message := ReachedFloor\<rparr>"
      "[(\<lambda>k. 0, Frame 16), (\<lambda>k. 0, Click), (\<lambda>k. 0, KeyDown '' '' False),
        (\<lambda>k. 0, TouchStart 100 100), (\<lambda>k. 0, KeyDown ''Enter'' True)]" exampleCanvas]
  by (simp add: exampleFlight_def exampleIdle_def)

subsection \<open>The cluster that the flood fill returns\<close>

text \<open>
  A cell is joined to the seed when it is reached from the seed by steps between adjacent
  cells, every cell on the way, the seed included, holding a bubble of the colour.
\<close>

definition matching :: "grid \<Rightarrow> string \<Rightarrow> int \<times> int \<Rightarrow> bool" where
  "matching g color p = (case bubbleAt g p of None \<Rightarrow> False | Some b \<Rightarrow> bubble_color b = color)"

inductive joined :: "grid \<Rightarrow> string \<Rightarrow> int \<times> int \<Rightarrow> int \<times> int \<Rightarrow> bool"
  for g :: grid and color :: string and seed :: "int \<times> int" where
  seed: "matching g color seed \<Longrightarrow> joined g color seed seed"
| step: "joined g color seed p \<Longrightarrow> q \<in> set (hexNeighbors (fst p) (snd p))
          \<Longrightarrow> matching g color q \<Longrightarrow> joined g color seed q"

text \<open>
  The same as a function of the path, which lists the cells from the cell reached back to
  the seed; adjacency is what \<open>getNeighbors\<close> returns.
\<close>

fun clusterPath :: "grid \<Rightarrow> string \<Rightarrow> int \<times> int \<Rightarrow> (int \<times> int) list \<Rightarrow> bool" where
  "clusterPath g color seed [] = False"
| "clusterPath g color seed [p] = (p = seed \<and> matching g color p)"
| "clusterPath g color seed (q # p # path) =
     (matching g color q \<and> q \<in> set (fst (getNeighbors (fst p) (snd p) g))
      \<and> clusterPath g color seed (p # path))"

text \<open>
  The invariant of the loop of \<open>collectCluster\<close>: \<open>ps\<close> lists, without repetition, the
  visited cells that hold a bubble of the colour, the bubbles matched so far are the
  bubbles of these cells, every neighbour of such a cell is visited or on the stack, every
  such cell is joined to the seed, and every cell on the stack is the seed or a neighbour
  of such a cell.
\<close>

definition clusterInv ::
  "grid \<Rightarrow> string \<Rightarrow> int \<times> int \<Rightarrow> (int \<times> int) set \<Rightarrow> (int \<times> int) list \<Rightarrow> (int \<times> int) list
     \<Rightarrow> bool" where
  "clusterInv g color seed V S ps \<longleftrightarrow>
     distinct ps \<and> set ps = {p \<in> V. matching g color p}
     \<and> (\<forall>p \<in> set ps. set (hexNeighbors (fst p) (snd p)) \<subseteq> V \<union> set S)
     \<and> (\<forall>p \<in> set ps. joined g color seed p)
     \<and> (\<forall>q \<in> set S. q = seed \<or> (\<exists>p \<in> set ps. q \<in> set (hexNeighbors (fst p) (snd p))))"

lemma matching_cong:
  assumes "bubbleAt g1 = bubbleAt g"
  shows "matching g1 = matching g"
  by (intro ext) (simp add: matching_def assms)

lemma joined_mono:
  assumes "joined g1 color seed p" "matching g1 = matching g"
  shows "joined g color seed p"
  using assms(1)
proof induction
  case seed
  then show ?case using assms(2) by (simp add: joined.seed)
next
  case (step p q)
  then show ?case using assms(2) by (simp add: joined.step)
qed

lemma joined_cong:
  assumes "bubbleAt g1 = bubbleAt g"
  shows "joined g1 = joined g"
proof -
  have m: "matching g1 = matching g" by (rule matching_cong[OF assms])
  have "joined g1 color seed p \<longleftrightarrow> joined g color seed p" for color seed p
    using joined_mono[OF _ m] joined_mono[OF _ m[symmetric]] by blast
  then show ?thesis by (intro ext) simp
qed

lemma clusterInv_cong:
  assumes "bubbleAt g1 = bubbleAt g"
  shows "clusterInv g1 = clusterInv g"
  by (intro ext) (simp add: clusterInv_def matching_cong[OF assms] joined_cong[OF assms])

lemma clusterInv_skip:
  assumes "clusterInv g color seed V (current # stack) ps" "current \<in> V"
  shows "clusterInv g color seed V stack ps"
proof -
  have u: "V \<union> set (current # stack) = V \<union> set stack" using assms(2) by auto
  from assms(1) have d: "distinct ps" and e: "set ps = {p \<in> V. matching g color p}"
    and n: "\<forall>p \<in> set ps. set (hexNeighbors (fst p) (snd p)) \<subseteq> V \<union> set (current # stack)"
    and j: "\<forall>p \<in> set ps. joined g color seed p"
    and l: "\<forall>q \<in> set (current # stack).
              q = seed \<or> (\<exists>p \<in> set ps. q \<in> set (hexNeighbors (fst p) (snd p)))"
    unfolding clusterInv_def by blast+
  from n have n': "\<forall>p \<in> set ps. set (hexNeighbors (fst p) (snd p)) \<subseteq> V \<union> set stack"
    unfolding u .
  from l have l': "\<forall>q \<in> set stack.
              q = seed \<or> (\<exists>p \<in> set ps. q \<in> set (hexNeighbors (fst p) (snd p)))"
    by simp
  from d e n' j l' show ?thesis unfolding clusterInv_def by blast
qed

lemma clusterInv_miss:
  assumes "clusterInv g color seed V (current # stack) ps" "\<not> matching g color current"
  shows "clusterInv g color seed (insert current V) stack ps"
proof -
  have u: "V \<union> set (current # stack) = insert current V \<union> set stack" by auto
  from assms(1) have d: "distinct ps" and e: "set ps = {p \<in> V. matching g color p}"
    and n: "\<forall>p \<in> set ps. set (hexNeighbors (fst p) (snd p)) \<subseteq> V \<union> set (current # stack)"
    and j: "\<forall>p \<in> set ps. joined g color seed p"
    and l: "\<forall>q \<in> set (current # stack).
              q = seed \<or> (\<exists>p \<in> set ps. q \<in> set (hexNeighbors (fst p) (snd p)))"
    unfolding clusterInv_def by blast+
  have "{p \<in> insert current V. matching g color p} = {p \<in> V. matching g color p}"
    using assms(2) by auto
  with e have e': "set ps = {p \<in> insert current V. matching g color p}" by simp
  from n have n': "\<forall>p \<in> set ps. set (hexNeighbors (fst p) (snd p))
                     \<subseteq> insert current V \<union> set stack"
    unfolding u .
  from l have l': "\<forall>q \<in> set stack.
              q = seed \<or> (\<exists>p \<in> set ps. q \<in> set (hexNeighbors (fst p) (snd p)))"
    by simp
  from d e' n' j l' show ?thesis unfolding clusterInv_def by blast
qed

lemma clusterInv_hit:
  assumes "clusterInv g color seed V (current # stack) ps" "matching g color current"
    "current \<notin> V"
  shows "clusterInv g color seed (insert current V)
           (rev (hexNeighbors (fst current) (snd current)) @ stack) (ps @ [current])"
proof -
  let ?ns = "hexNeighbors (fst current) (snd current)"
  from assms(1) have d: "distinct ps" and e: "set ps = {p \<in> V. matching g color p}"
    and n: "\<forall>p \<in> set ps. set (hexNeighbors (fst p) (snd p)) \<subseteq> V \<union> set (current # stack)"
    and j: "\<forall>p \<in> set ps. joined g color seed p"
    and l: "\<forall>q \<in> set (current # stack).
              q = seed \<or> (\<exists>p \<in> set ps. q \<in> set (hexNeighbors (fst p) (snd p)))"
    unfolding clusterInv_def by blast+
  from e assms(3) have "current \<notin> set ps" by blast
  with d have "distinct (ps @ [current])" by simp
  moreover have "set (ps @ [current]) = {p \<in> insert current V. matching g color p}"
    using e assms(2) by auto
  moreover have "V \<union> set (current # stack) \<subseteq> insert current V \<union> set (rev ?ns @ stack)"
    by auto
  with n have "\<forall>p \<in> set ps. set (hexNeighbors (fst p) (snd p))
                  \<subseteq> insert current V \<union> set (rev ?ns @ stack)"
    by blast
  then have "\<forall>p \<in> set (ps @ [current]). set (hexNeighbors (fst p) (snd p))
                  \<subseteq> insert current V \<union> set (rev ?ns @ stack)"
    by auto
  moreover have jc: "joined g color seed current"
  proof -
    from l have "current = seed \<or> (\<exists>p \<in> set ps. current \<in> set (hexNeighbors (fst p) (snd p)))"
      by simp
    then show ?thesis
    proof
      assume "current = seed"
      with assms(2) show ?thesis by (simp add: joined.seed)
    next
      assume "\<exists>p \<in> set ps. current \<in> set (hexNeighbors (fst p) (snd p))"
      then obtain p where "p \<in> set ps" "current \<in> set (hexNeighbors (fst p) (snd p))" by blast
      with j assms(2) show ?thesis by (blast intro: joined.step)
    qed
  qed
  with j have "\<forall>p \<in> set (ps @ [current]). joined g color seed p" by simp
  moreover have "\<forall>q \<in> set (rev ?ns @ stack).
      q = seed \<or> (\<exists>p \<in> set (ps @ [current]). q \<in> set (hexNeighbors (fst p) (snd p)))"
  proof
    fix q assume "q \<in> set (rev ?ns @ stack)"
    then have "q \<in> set ?ns \<or> q \<in> set stack" by auto
    then show "q = seed \<or> (\<exists>p \<in> set (ps @ [current]). q \<in> set (hexNeighbors (fst p) (snd p)))"
    proof
      assume "q \<in> set ?ns"
      then show ?thesis by auto
    next
      assume "q \<in> set stack"
      with l have "q = seed \<or> (\<exists>p \<in> set ps. q \<in> set (hexNeighbors (fst p) (snd p)))" by simp
      then show ?thesis by auto
    qed
  qed
  ultimately show ?thesis unfolding clusterInv_def by blast
qed

lemma collectCluster_loop_inv:
  assumes "clusterInv g color seed V S ps" "M = map (\<lambda>p. the (bubbleAt g p)) ps"
  shows "\<exists>ps' V' g'. collectCluster_loop color V S M g = Some (map (\<lambda>p. the (bubbleAt g p)) ps', g')
           \<and> bubbleAt g' = bubbleAt g \<and> V \<union> set S \<subseteq> V' \<and> clusterInv g color seed V' [] ps'"
  using assms
proof (induction color V S M g arbitrary: ps rule: collectCluster_loop.induct)
  case (1 color visited matched g)
  then show ?case by auto
next
  case (2 color visited current stack matched g)
  show ?case
  proof (cases "current \<in> visited")
    case True
    from clusterInv_skip[OF "2.prems"(1) True] "2.prems"(2)
    have "\<exists>ps' V' g'. collectCluster_loop color visited stack matched g
             = Some (map (\<lambda>p. the (bubbleAt g p)) ps', g')
           \<and> bubbleAt g' = bubbleAt g \<and> visited \<union> set stack \<subseteq> V' \<and> clusterInv g color seed V' [] ps'"
      by (rule "2.IH"(1)[OF True])
    with True show ?thesis by auto
  next
    case False
    obtain g1 where gb: "getBubble (fst current) (snd current) g = Some (bubbleAt g current, g1)"
      and b1: "bubbleAt g1 = bubbleAt g"
      by (cases "fst current < 0 \<or> snd current < 0 \<or> int (length g) \<le> fst current
                   \<or> int COLUMNS \<le> snd current")
         (auto simp: getBubble_eq fun_eq_iff)
    show ?thesis
    proof (cases "matching g color current")
      case miss: False
      have inv: "clusterInv g1 color seed (insert current visited) stack ps"
        using clusterInv_miss[OF "2.prems"(1) miss] by (simp add: clusterInv_cong[OF b1])
      have m: "matched = map (\<lambda>p. the (bubbleAt g1 p)) ps" using "2.prems"(2) b1 by simp
      have "\<exists>ps' V' g'. collectCluster_loop color (insert current visited) stack matched g1
               = Some (map (\<lambda>p. the (bubbleAt g1 p)) ps', g')
             \<and> bubbleAt g' = bubbleAt g1 \<and> insert current visited \<union> set stack \<subseteq> V'
             \<and> clusterInv g1 color seed V' [] ps'"
      proof (cases "bubbleAt g current")
        case None
        from "2.IH"(2)[OF False gb refl None inv m] show ?thesis .
      next
        case (Some b)
        with miss have "bubble_color b \<noteq> color" by (simp add: matching_def)
        from "2.IH"(3)[OF False gb refl Some this inv m] show ?thesis .
      qed
      then obtain ps' V' g' where
        r: "collectCluster_loop color (insert current visited) stack matched g1
               = Some (map (\<lambda>p. the (bubbleAt g1 p)) ps', g')"
           "bubbleAt g' = bubbleAt g1" "insert current visited \<union> set stack \<subseteq> V'"
           "clusterInv g1 color seed V' [] ps'" by blast
      have "collectCluster_loop color visited (current # stack) matched g
              = collectCluster_loop color (insert current visited) stack matched g1"
        using False gb miss by (auto simp: matching_def split: option.splits)
      with r b1 show ?thesis
        by (intro exI[of _ ps'] exI[of _ V'] exI[of _ g']) (auto simp: clusterInv_cong[OF b1])
    next
      case hit: True
      then obtain b where b: "bubbleAt g current = Some b" "bubble_color b = color"
        by (auto simp: matching_def split: option.splits)
      obtain g2 where gn: "getNeighbors (fst current) (snd current) g1
                             = (hexNeighbors (fst current) (snd current), g2)"
        and b2: "bubbleAt g2 = bubbleAt g1"
        using getNeighbors_eq[of "fst current" "snd current" g1]
        by (cases "getNeighbors (fst current) (snd current) g1") auto
      have b2': "bubbleAt g2 = bubbleAt g" using b1 b2 by simp
      have inv: "clusterInv g2 color seed (insert current visited)
                   (rev (hexNeighbors (fst current) (snd current)) @ stack) (ps @ [current])"
        using clusterInv_hit[OF "2.prems"(1) hit False] by (simp add: clusterInv_cong[OF b2'])
      have m: "matched @ [b] = map (\<lambda>p. the (bubbleAt g2 p)) (ps @ [current])"
        using "2.prems"(2) b2' b by simp
      have nn: "\<not> bubble_color b \<noteq> color" using b(2) by simp
      from "2.IH"(4)[OF False gb refl b(1) nn gn[symmetric] inv m]
      obtain ps' V' g' where
        r: "collectCluster_loop color (insert current visited)
              (rev (hexNeighbors (fst current) (snd current)) @ stack) (matched @ [b]) g2
               = Some (map (\<lambda>p. the (bubbleAt g2 p)) ps', g')"
           "bubbleAt g' = bubbleAt g2"
           "insert current visited \<union> set (rev (hexNeighbors (fst current) (snd current)) @ stack) \<subseteq> V'"
           "clusterInv g2 color seed V' [] ps'" by blast
      have "collectCluster_loop color visited (current # stack) matched g
              = collectCluster_loop color (insert current visited)
                  (rev (hexNeighbors (fst current) (snd current)) @ stack) (matched @ [b]) g2"
        using False gb b gn by simp
      with r b2' show ?thesis
        by (intro exI[of _ ps'] exI[of _ V'] exI[of _ g']) (auto simp: clusterInv_cong[OF b2'])
    qed
  qed
qed

lemma collectCluster_correct:
  "\<exists>cells g'. collectCluster row col color g = Some (map (\<lambda>p. the (bubbleAt g p)) cells, g')
     \<and> bubbleAt g' = bubbleAt g
     \<and> distinct cells
     \<and> (\<forall>p \<in> set cells. matching g color p)
     \<and> (matching g color (row, col) \<longrightarrow> (row, col) \<in> set cells)
     \<and> (\<forall>p \<in> set cells. \<forall>q \<in> set (hexNeighbors (fst p) (snd p)).
            matching g color q \<longrightarrow> q \<in> set cells)
     \<and> (\<forall>p \<in> set cells. joined g color (row, col) p)"
proof -
  have "clusterInv g color (row, col) {} [(row, col)] []" by (simp add: clusterInv_def)
  from collectCluster_loop_inv[OF this, of "[]"]
  obtain cells V' g' where
    r: "collectCluster_loop color {} [(row, col)] [] g = Some (map (\<lambda>p. the (bubbleAt g p)) cells, g')"
    and b: "bubbleAt g' = bubbleAt g" and v: "(row, col) \<in> V'"
    and inv: "clusterInv g color (row, col) V' [] cells"
    by auto
  from inv have d: "distinct cells" and e: "set cells = {p \<in> V'. matching g color p}"
    and n: "\<forall>p \<in> set cells. set (hexNeighbors (fst p) (snd p)) \<subseteq> V'"
    and j: "\<forall>p \<in> set cells. joined g color (row, col) p"
    unfolding clusterInv_def by auto
  from e have "\<forall>p \<in> set cells. matching g color p" by blast
  moreover from e v have "matching g color (row, col) \<longrightarrow> (row, col) \<in> set cells" by blast
  moreover from e n have "\<forall>p \<in> set cells. \<forall>q \<in> set (hexNeighbors (fst p) (snd p)).
            matching g color q \<longrightarrow> q \<in> set cells" by blast
  ultimately show ?thesis using r b d j unfolding collectCluster_def by blast
qed

text \<open>
  The cells of the result are exactly the cells joined to the seed.
\<close>

lemma joined_clusterPath:
  "joined g color seed p \<longleftrightarrow> (\<exists>path. clusterPath g color seed (p # path))"
proof
  assume "joined g color seed p"
  then show "\<exists>path. clusterPath g color seed (p # path)"
  proof induction
    case seed
    then have "clusterPath g color seed [seed]" by simp
    then show ?case by blast
  next
    case (step p q)
    then obtain path where "clusterPath g color seed (p # path)" by blast
    with step.hyps(2,3) have "clusterPath g color seed (q # p # path)"
      by (simp add: getNeighbors_fst)
    then show ?case by blast
  qed
next
  assume "\<exists>path. clusterPath g color seed (p # path)"
  then obtain path where "clusterPath g color seed (p # path)" by blast
  then show "joined g color seed p"
  proof (induction path arbitrary: p)
    case Nil
    then have "p = seed" "matching g color seed" by auto
    then show ?case by (simp add: joined.seed)
  next
    case (Cons a path)
    from Cons.prems have m: "matching g color p"
      and n: "p \<in> set (hexNeighbors (fst a) (snd a))"
      and c: "clusterPath g color seed (a # path)"
      by (simp_all add: getNeighbors_fst)
    from Cons.IH[OF c] n m show ?case by (rule joined.step)
  qed
qed

lemma collectCluster_joined:
  "\<exists>cells g'. collectCluster row col color g = Some (map (\<lambda>p. the (bubbleAt g p)) cells, g')
     \<and> bubbleAt g' = bubbleAt g
     \<and> distinct cells
     \<and> set cells = {p. \<exists>path. clusterPath g color (row, col) (p # path)}"
proof -
  from collectCluster_correct[of row col color g]
  obtain cells g' where
    r: "collectCluster row col color g = Some (map (\<lambda>p. the (bubbleAt g p)) cells, g')"
    and b: "bubbleAt g' = bubbleAt g"
    and d: "distinct cells"
    and s: "matching g color (row, col) \<longrightarrow> (row, col) \<in> set cells"
    and n: "\<forall>p \<in> set cells. \<forall>q \<in> set (hexNeighbors (fst p) (snd p)).
            matching g color q \<longrightarrow> q \<in> set cells"
    and j: "\<forall>p \<in> set cells. joined g color (row, col) p"
    by blast
  have "p \<in> set cells" if "joined g color (row, col) p" for p
    using that
  proof induction
    case seed
    with s show ?case by simp
  next
    case (step p q)
    with n show ?case by blast
  qed
  with j have "set cells = {p. joined g color (row, col) p}" by blast
  then have "set cells = {p. \<exists>path. clusterPath g color (row, col) (p # path)}"
    by (simp add: joined_clusterPath)
  with r b d show ?thesis by blast
qed

text \<open>
  C4.  Started at an occupied cell with the colour of its bubble, the flood fill returns
  the bubbles of a list of distinct cells such that every cell of the list is occupied by
  a bubble of that colour, the seed cell is in the list, and every neighbour (as
  \<open>getNeighbors\<close> lists them) of a cell of the list that is occupied by a bubble of that
  colour is in the list too.
\<close>

theorem collectCluster_maximal:
  assumes "bubbleAt g (row, col) = Some origin"
  shows "\<exists>cells g'.
           collectCluster row col (bubble_color origin) g
             = Some (map (\<lambda>p. the (bubbleAt g p)) cells, g')
           \<and> distinct cells
           \<and> (\<forall>p \<in> set cells. \<exists>b. bubbleAt g p = Some b \<and> bubble_color b = bubble_color origin)
           \<and> (row, col) \<in> set cells
           \<and> (\<forall>p \<in> set cells. \<forall>q \<in> set (fst (getNeighbors (fst p) (snd p) g)). \<forall>b.
                  bubbleAt g q = Some b \<and> bubble_color b = bubble_color origin \<longrightarrow> q \<in> set cells)"
proof -
  from collectCluster_correct[of row col "bubble_color origin" g]
  obtain cells g' where
    r: "collectCluster row col (bubble_color origin) g
          = Some (map (\<lambda>p. the (bubbleAt g p)) cells, g')"
    and d: "distinct cells"
    and m: "\<forall>p \<in> set cells. matching g (bubble_color origin) p"
    and s: "matching g (bubble_color origin) (row, col) \<longrightarrow> (row, col) \<in> set cells"
    and n: "\<forall>p \<in> set cells. \<forall>q \<in> set (hexNeighbors (fst p) (snd p)).
            matching g (bubble_color origin) q \<longrightarrow> q \<in> set cells"
    by blast
  have mm: "matching g (bubble_color origin) p
              \<longleftrightarrow> (\<exists>b. bubbleAt g p = Some b \<and> bubble_color b = bubble_color origin)" for p
    by (simp add: matching_def split: option.splits)
  from assms have "matching g (bubble_color origin) (row, col)" by (simp add: matching_def)
  with s have "(row, col) \<in> set cells" by simp
  moreover from m have "\<forall>p \<in> set cells. \<exists>b. bubbleAt g p = Some b
                          \<and> bubble_color b = bubble_color origin"
    by (simp add: mm)
  moreover from n have "\<forall>p \<in> set cells. \<forall>q \<in> set (fst (getNeighbors (fst p) (snd p) g)). \<forall>b.
                  bubbleAt g q = Some b \<and> bubble_color b = bubble_color origin \<longrightarrow> q \<in> set cells"
    unfolding getNeighbors_fst using mm by blast
  ultimately show ?thesis using r d by blast
qed

subsection \<open>What the cleanup leaves\<close>

text \<open>
  The cells of a set \<open>A\<close> that a path of neighbouring cells inside \<open>A\<close> links to a cell
  of \<open>A\<close> in row 0.  The neighbours of a cell are the cells \<open>hexNeighbors\<close>, the list
  that \<open>getNeighbors\<close> returns.
\<close>

inductive anchored :: "(int \<times> int) set \<Rightarrow> int \<times> int \<Rightarrow> bool" for A where
  top: "(0, c) \<in> A \<Longrightarrow> anchored A (0, c)"
| link: "anchored A p \<Longrightarrow> q \<in> set (hexNeighbors (fst p) (snd p)) \<Longrightarrow> q \<in> A \<Longrightarrow> anchored A q"

lemma anchored_mono: "anchored A p \<Longrightarrow> A \<subseteq> B \<Longrightarrow> anchored B p"
  by (induction rule: anchored.induct) (auto intro: anchored.intros)

definition bfsInv :: "grid \<Rightarrow> (int \<times> int) set \<Rightarrow> (int \<times> int) set \<Rightarrow> (int \<times> int) list \<Rightarrow> bool" where
  "bfsInv g V C Q \<longleftrightarrow> V = C \<and> C \<subseteq> occupied g \<and> set Q \<subseteq> C \<and> (\<forall>p \<in> C. anchored C p)"

lemma bfsInv_cong: "bubbleAt g1 = bubbleAt g \<Longrightarrow> bfsInv g1 = bfsInv g"
  by (intro ext) (simp add: bfsInv_def occupied_def)

lemma bfsInv_insert:
  assumes "bfsInv g V C Q" "q \<in> occupied g" "q \<in> set (hexNeighbors (fst p) (snd p))" "p \<in> C"
  shows "bfsInv g (insert q V) (insert q C) (Q @ [q])"
proof -
  from assms(1) have e: "V = C" and o: "C \<subseteq> occupied g" and s: "set Q \<subseteq> C"
    and a: "\<forall>p \<in> C. anchored C p" unfolding bfsInv_def by blast+
  have "anchored (insert q C) r" if "r \<in> insert q C" for r
  proof (cases "r \<in> C")
    case True
    with a have "anchored C r" by blast
    then show ?thesis by (rule anchored_mono) auto
  next
    case False
    with that have r: "r = q" by simp
    from a assms(4) have "anchored C p" by blast
    then have "anchored (insert q C) p" by (rule anchored_mono) auto
    then show ?thesis unfolding r using assms(3) by (rule anchored.link) simp
  qed
  with e o s assms(2) show ?thesis unfolding bfsInv_def by auto
qed

lemma checkForFloating_neighbors_inv:
  assumes "bfsInv g V C Q" "set ns \<subseteq> set (hexNeighbors (fst p) (snd p))" "p \<in> C"
  shows "\<exists>V' C' Q' g'. checkForFloating_neighbors ns V C Q g = Some (V', C', Q', g')
           \<and> bubbleAt g' = bubbleAt g \<and> C \<subseteq> C' \<and> bfsInv g V' C' Q'"
  using assms
proof (induction ns V C Q g rule: checkForFloating_neighbors.induct)
  case (1 visited conn queue g)
  then show ?case by auto
next
  case (2 neighbor neighbors visited conn queue g)
  from "2.prems"(2) have sub: "set neighbors \<subseteq> set (hexNeighbors (fst p) (snd p))"
    and nb: "neighbor \<in> set (hexNeighbors (fst p) (snd p))" by auto
  show ?case
  proof (cases "neighbor \<in> visited")
    case True
    from "2.IH"(1)[OF True "2.prems"(1) sub "2.prems"(3)] True show ?thesis by simp
  next
    case False
    obtain g1 where gb: "getBubble (fst neighbor) (snd neighbor) g = Some (bubbleAt g neighbor, g1)"
      and b1: "bubbleAt g1 = bubbleAt g"
      by (cases "fst neighbor < 0 \<or> snd neighbor < 0 \<or> int (length g) \<le> fst neighbor
                   \<or> int COLUMNS \<le> snd neighbor")
         (auto simp: getBubble_eq fun_eq_iff)
    show ?thesis
    proof (cases "bubbleAt g neighbor")
      case None
      have inv: "bfsInv g1 visited conn queue"
        using "2.prems"(1) by (simp add: bfsInv_cong[OF b1])
      from "2.IH"(2)[OF False gb refl None inv sub "2.prems"(3)]
      obtain V' C' Q' g' where
        "checkForFloating_neighbors neighbors visited conn queue g1 = Some (V', C', Q', g')"
        "bubbleAt g' = bubbleAt g1" "conn \<subseteq> C'" "bfsInv g1 V' C' Q'" by blast
      with False gb None b1 show ?thesis
        by (intro exI[of _ V'] exI[of _ C'] exI[of _ Q'] exI[of _ g'])
           (simp add: bfsInv_cong[OF b1])
    next
      case (Some b)
      then have "neighbor \<in> occupied g" by (simp add: occupied_def)
      from bfsInv_insert[OF "2.prems"(1) this nb "2.prems"(3)]
      have inv: "bfsInv g1 (insert neighbor visited) (insert neighbor conn) (queue @ [neighbor])"
        by (simp add: bfsInv_cong[OF b1])
      have pc: "p \<in> insert neighbor conn" using "2.prems"(3) by simp
      from "2.IH"(3)[OF False gb refl Some inv sub pc]
      obtain V' C' Q' g' where
        "checkForFloating_neighbors neighbors (insert neighbor visited) (insert neighbor conn)
           (queue @ [neighbor]) g1 = Some (V', C', Q', g')"
        "bubbleAt g' = bubbleAt g1" "insert neighbor conn \<subseteq> C'" "bfsInv g1 V' C' Q'" by blast
      with False gb Some b1 show ?thesis
        by (intro exI[of _ V'] exI[of _ C'] exI[of _ Q'] exI[of _ g'])
           (simp add: bfsInv_cong[OF b1])
    qed
  qed
qed

lemma checkForFloating_bfs_inv:
  assumes "bfsInv g V C Q"
  shows "\<exists>C' g'. checkForFloating_bfs V C Q g = Some (C', g')
           \<and> bubbleAt g' = bubbleAt g \<and> C \<subseteq> C' \<and> C' \<subseteq> occupied g \<and> (\<forall>p \<in> C'. anchored C' p)"
  using assms
proof (induction V C Q g rule: checkForFloating_bfs.induct)
  case (1 visited conn g)
  then show ?case by (auto simp: bfsInv_def)
next
  case (2 visited conn current queue g)
  obtain g1 where gn: "getNeighbors (fst current) (snd current) g
                         = (hexNeighbors (fst current) (snd current), g1)"
    and b1: "bubbleAt g1 = bubbleAt g"
    using getNeighbors_eq[of "fst current" "snd current" g]
    by (cases "getNeighbors (fst current) (snd current) g") auto
  from "2.prems" have cur: "current \<in> conn" and inv0: "bfsInv g visited conn queue"
    unfolding bfsInv_def by auto
  from inv0 have inv: "bfsInv g1 visited conn queue" by (simp add: bfsInv_cong[OF b1])
  from checkForFloating_neighbors_inv[OF inv subset_refl cur]
  obtain V' C' Q' g2 where
    r: "checkForFloating_neighbors (hexNeighbors (fst current) (snd current)) visited conn queue g1
          = Some (V', C', Q', g2)"
    and b2: "bubbleAt g2 = bubbleAt g1" and sub: "conn \<subseteq> C'" and inv2: "bfsInv g1 V' C' Q'"
    by blast
  have inv2': "bfsInv g2 V' C' Q'" using inv2 by (simp add: bfsInv_cong[OF b2])
  from "2.IH"[OF gn[symmetric] r refl refl refl inv2']
  obtain C'' g' where
    "checkForFloating_bfs V' C' Q' g2 = Some (C'', g')" "bubbleAt g' = bubbleAt g2"
    "C' \<subseteq> C''" "C'' \<subseteq> occupied g2" "\<forall>p \<in> C''. anchored C'' p" by blast
  with gn r b1 b2 sub show ?case
    by (intro exI[of _ C''] exI[of _ g']) (auto simp: occupied_def)
qed

lemma bfsInv_insert_top:
  assumes "bfsInv g V C Q" "(0, c) \<in> occupied g"
  shows "bfsInv g (insert (0, c) V) (insert (0, c) C) (Q @ [(0, c)])"
proof -
  from assms(1) have e: "V = C" and o: "C \<subseteq> occupied g" and s: "set Q \<subseteq> C"
    and a: "\<forall>p \<in> C. anchored C p" unfolding bfsInv_def by blast+
  have "anchored (insert (0, c) C) r" if "r \<in> insert (0, c) C" for r
  proof (cases "r \<in> C")
    case True
    with a have "anchored C r" by blast
    then show ?thesis by (rule anchored_mono) auto
  next
    case False
    with that have r: "r = (0, c)" by simp
    show ?thesis unfolding r by (rule anchored.top) simp
  qed
  with e o s assms(2) show ?thesis unfolding bfsInv_def by auto
qed

lemma checkForFloating_seeds_inv:
  assumes "bfsInv g V C Q"
  shows "\<exists>V' C' Q' g'. checkForFloating_seeds col V C Q g = Some (V', C', Q', g')
           \<and> bubbleAt g' = bubbleAt g \<and> bfsInv g V' C' Q'"
  using assms
proof (induction col V C Q g rule: checkForFloating_seeds.induct)
  case (1 col visited conn queue g)
  note unfold = checkForFloating_seeds.simps[of col visited conn queue g]
  show ?case
  proof (cases "col < COLUMNS")
    case False
    with "1.prems" show ?thesis by (simp add: unfold)
  next
    case True
    obtain g1 where gb: "getBubble 0 (int col) g = Some (bubbleAt g (0, int col), g1)"
      and b1: "bubbleAt g1 = bubbleAt g"
      by (cases "(0::int) < 0 \<or> int col < 0 \<or> int (length g) \<le> 0 \<or> int COLUMNS \<le> int col")
         (auto simp: getBubble_eq fun_eq_iff)
    show ?thesis
    proof (cases "bubbleAt g (0, int col)")
      case None
      have inv: "bfsInv g1 visited conn queue"
        using "1.prems" by (simp add: bfsInv_cong[OF b1])
      from "1.IH"(1)[OF True gb refl None inv]
      obtain V' C' Q' g' where
        "checkForFloating_seeds (col + 1) visited conn queue g1 = Some (V', C', Q', g')"
        "bubbleAt g' = bubbleAt g1" "bfsInv g1 V' C' Q'" by blast
      with True gb None b1 show ?thesis
        by (intro exI[of _ V'] exI[of _ C'] exI[of _ Q'] exI[of _ g'])
           (simp add: unfold bfsInv_cong[OF b1])
    next
      case (Some b)
      then have "(0, int col) \<in> occupied g" by (simp add: occupied_def)
      from bfsInv_insert_top[OF "1.prems" this]
      have inv: "bfsInv g1 (insert (0, int col) visited) (insert (0, int col) conn)
                   (queue @ [(0, int col)])"
        by (simp add: bfsInv_cong[OF b1])
      from "1.IH"(2)[OF True gb refl Some inv]
      obtain V' C' Q' g' where
        "checkForFloating_seeds (col + 1) (insert (0, int col) visited) (insert (0, int col) conn)
           (queue @ [(0, int col)]) g1 = Some (V', C', Q', g')"
        "bubbleAt g' = bubbleAt g1" "bfsInv g1 V' C' Q'" by blast
      with True gb Some b1 show ?thesis
        by (intro exI[of _ V'] exI[of _ C'] exI[of _ Q'] exI[of _ g'])
           (simp add: unfold bfsInv_cong[OF b1])
    qed
  qed
qed

lemma nth_setEntry:
  assumes "0 \<le> col"
  shows "(if 0 \<le> c \<and> nat c < length (setEntry cs col v) then setEntry cs col v ! nat c else None)
           = (if c = col then v else if 0 \<le> c \<and> nat c < length cs then cs ! nat c else None)"
proof (cases "nat col < length cs")
  case True
  with assms show ?thesis by (auto simp: setEntry_def nth_list_update)
next
  case False
  with assms show ?thesis
    by (auto simp: setEntry_def nth_append nth_Cons' split: if_splits)
qed

lemma bubbleAt_setCell:
  assumes "setCell g row col v = Some g'" "0 \<le> col" "col < int COLUMNS"
  shows "bubbleAt g' p = (if p = (row, col) then v else bubbleAt g p)"
proof -
  from assms(1) obtain cs where cs: "rowAt g row = Some cs"
    and g': "g' = g[nat row := Some (setEntry cs col v)]"
    by (auto simp: setCell_def split: option.splits)
  from cs have r: "0 \<le> row" "nat row < length g" by (auto simp: rowAt_def split: if_splits)
  have ra: "rowAt g' r = (if r = row then Some (setEntry cs col v) else rowAt g r)" for r
    using r unfolding g' rowAt_def by (auto simp: nth_list_update)
  obtain pr pc where p: "p = (pr, pc)" by (cases p)
  show ?thesis
  proof (cases "pr = row")
    case False
    then show ?thesis by (simp add: p bubbleAt_def cellAt_def ra)
  next
    case True
    have "bubbleAt g' (row, pc) =
            (if int COLUMNS \<le> pc then None
             else if 0 \<le> pc \<and> nat pc < length (setEntry cs col v)
                  then setEntry cs col v ! nat pc else None)"
      by (simp add: bubbleAt_def cellAt_def ra)
    also have "\<dots> = (if int COLUMNS \<le> pc then None
                      else if pc = col then v
                      else if 0 \<le> pc \<and> nat pc < length cs then cs ! nat pc else None)"
      by (simp only: nth_setEntry[OF assms(2)])
    finally have a: "bubbleAt g' (row, pc) =
            (if int COLUMNS \<le> pc then None
             else if pc = col then v
             else if 0 \<le> pc \<and> nat pc < length cs then cs ! nat pc else None)" .
    have b: "bubbleAt g (row, pc) =
            (if int COLUMNS \<le> pc then None
             else if 0 \<le> pc \<and> nat pc < length cs then cs ! nat pc else None)"
      by (simp add: bubbleAt_def cellAt_def cs)
    show ?thesis unfolding p True a b using assms(3) by auto
  qed
qed

lemma occupied_snd: "p \<in> occupied g \<Longrightarrow> 0 \<le> snd p \<and> snd p < int COLUMNS"
  using occupied_bounds[of g] by auto

lemma occupied_fst: "p \<in> occupied g \<Longrightarrow> 0 \<le> fst p \<and> fst p < int (length g)"
  using occupied_bounds[of g] by auto

lemma cellAt_bubbleAt:
  assumes "rowAt g r \<noteq> None" "c < int COLUMNS"
  shows "cellAt g r c = Some (bubbleAt g (r, c))"
  using assms by (auto simp: bubbleAt_def cellAt_def)

text \<open>The cells of row \<open>row\<close>, from column \<open>col\<close> on, that the cleanup clears.\<close>

definition doomedFrom :: "grid \<Rightarrow> (int \<times> int) set \<Rightarrow> nat \<Rightarrow> nat \<Rightarrow> (int \<times> int) set" where
  "doomedFrom g conn row col = {p \<in> occupied g. fst p = int row \<and> int col \<le> snd p \<and> p \<notin> conn}"

lemma finite_doomedFrom [simp]: "finite (doomedFrom g conn row col)"
  by (rule finite_subset[of _ "occupied g"]) (auto simp: doomedFrom_def)

lemma doomedFrom_Suc:
  "(int row, int col) \<notin> occupied g \<or> (int row, int col) \<in> conn
     \<Longrightarrow> doomedFrom g conn row (Suc col) = doomedFrom g conn row col"
proof -
  assume a: "(int row, int col) \<notin> occupied g \<or> (int row, int col) \<in> conn"
  have "int col \<le> snd p \<longleftrightarrow> int (Suc col) \<le> snd p"
    if "p \<in> occupied g" "fst p = int row" "p \<notin> conn" for p
  proof -
    from a that have "p \<noteq> (int row, int col)" by auto
    with that(2) have "snd p \<noteq> int col" by (cases p) auto
    then show ?thesis by auto
  qed
  then show ?thesis unfolding doomedFrom_def by blast
qed

lemma checkForFloating_removeCols_result:
  assumes "rowAt g (int row) \<noteq> None"
  shows "\<exists>g'. checkForFloating_removeCols row col conn g removed
                 = Some (g', removed + int (card (doomedFrom g conn row col)))
           \<and> bubbleAt g' = (\<lambda>p. if p \<in> doomedFrom g conn row col then None else bubbleAt g p)"
  using assms
proof (induction row col conn g removed rule: checkForFloating_removeCols.induct)
  case (1 row col conn g removed)
  note unfold = checkForFloating_removeCols.simps[of row col conn g removed]
  show ?case
  proof (cases "col < COLUMNS")
    case False
    then have "doomedFrom g conn row col = {}"
      using occupied_snd[of _ g] by (fastforce simp: doomedFrom_def)
    with False show ?thesis by (simp add: unfold)
  next
    case True
    then have c: "cellAt g (int row) (int col) = Some (bubbleAt g (int row, int col))"
      using "1.prems" by (intro cellAt_bubbleAt) simp_all
    show ?thesis
    proof (cases "bubbleAt g (int row, int col)")
      case None
      then have "(int row, int col) \<notin> occupied g" by (simp add: occupied_def)
      then have d: "doomedFrom g conn row (Suc col) = doomedFrom g conn row col"
        by (intro doomedFrom_Suc) simp
      from "1.IH"(1)[OF True c None "1.prems"] True c None show ?thesis
        by (simp add: unfold d)
    next
      case (Some b)
      show ?thesis
      proof (cases "(int row, int col) \<in> conn")
        case inC: True
        then have d: "doomedFrom g conn row (Suc col) = doomedFrom g conn row col"
          by (intro doomedFrom_Suc) simp
        have nn: "\<not> (int row, int col) \<notin> conn" using inC by simp
        from "1.IH"(3)[OF True c Some nn "1.prems"] True c Some inC show ?thesis
          by (simp add: unfold d)
      next
        case notC: False
        from setCell_total[OF "1.prems"] obtain g1 where
          g1: "setCell g (int row) (int col) None = Some g1" by blast
        have b1: "bubbleAt g1 p = (if p = (int row, int col) then None else bubbleAt g p)" for p
          using True by (intro bubbleAt_setCell[OF g1]) simp_all
        then have o1: "occupied g1 = occupied g - {(int row, int col)}"
          by (auto simp: occupied_def)
        have r1: "rowAt g1 (int row) \<noteq> None" using rowAt_setCell[OF g1] "1.prems" by simp
        have here: "(int row, int col) \<in> doomedFrom g conn row col"
          using Some notC by (simp add: doomedFrom_def occupied_def)
        have d1: "doomedFrom g1 conn row (col + 1) = doomedFrom g conn row col - {(int row, int col)}"
          unfolding doomedFrom_def o1 by (auto simp: prod_eq_iff)
        have "card (doomedFrom g conn row col) = Suc (card (doomedFrom g1 conn row (col + 1)))"
          unfolding d1 using here by (intro card.remove) simp_all
        then have cd: "removed + 1 + int (card (doomedFrom g1 conn row (col + 1)))
                         = removed + int (card (doomedFrom g conn row col))" by simp
        from "1.IH"(2)[OF True c Some notC g1 r1]
        obtain g' where
          r: "checkForFloating_removeCols row (col + 1) conn g1 (removed + 1)
                = Some (g', removed + 1 + int (card (doomedFrom g1 conn row (col + 1))))"
          and b': "bubbleAt g' = (\<lambda>p. if p \<in> doomedFrom g1 conn row (col + 1) then None
                                     else bubbleAt g1 p)"
          by blast
        have "bubbleAt g' = (\<lambda>p. if p \<in> doomedFrom g conn row col then None else bubbleAt g p)"
          unfolding b' d1 using here by (auto simp: b1 fun_eq_iff)
        with r cd True c Some notC g1 show ?thesis by (simp add: unfold)
      qed
    qed
  qed
qed

lemma checkForFloating_removeRows_result:
  "\<exists>g'. checkForFloating_removeRows row conn g removed
           = Some (g', removed + int (card {p \<in> occupied g. int row \<le> fst p \<and> p \<notin> conn}))
        \<and> bubbleAt g' = (\<lambda>p. if p \<in> occupied g \<and> int row \<le> fst p \<and> p \<notin> conn then None
                               else bubbleAt g p)"
proof (induction row conn g removed rule: checkForFloating_removeRows.induct)
  case (1 row conn g removed)
  note unfold = checkForFloating_removeRows.simps[of row conn g removed]
  let ?D = "{p \<in> occupied g. int row \<le> fst p \<and> p \<notin> conn}"
  show ?case
  proof (cases "row < length g")
    case False
    then have "?D = {}" using occupied_fst[of _ g] by fastforce
    with False show ?thesis by (auto simp: unfold fun_eq_iff)
  next
    case True
    let ?g0 = "ensureRow row g"
    let ?Drow = "doomedFrom ?g0 conn row 0"
    have "rowAt ?g0 (int row) \<noteq> None" using rowAt_ensureRow_same[of "int row" g] by simp
    from checkForFloating_removeCols_result[OF this, of 0 conn removed]
    obtain g1 where
      c: "checkForFloating_removeCols row 0 conn ?g0 removed = Some (g1, removed + int (card ?Drow))"
      and b1: "bubbleAt g1 = (\<lambda>p. if p \<in> ?Drow then None else bubbleAt ?g0 p)"
      by blast
    have dr: "?Drow = {p \<in> occupied g. fst p = int row \<and> p \<notin> conn}"
      using occupied_snd[of _ g] by (auto simp: doomedFrom_def)
    have o1: "occupied g1 = occupied g - ?Drow"
      unfolding occupied_def b1 by (auto simp: dr occupied_def)
    let ?D1 = "{p \<in> occupied g1. int (row + 1) \<le> fst p \<and> p \<notin> conn}"
    have d1: "?D1 = {p \<in> occupied g. int (row + 1) \<le> fst p \<and> p \<notin> conn}"
      unfolding o1 dr by auto
    have un: "?D = ?Drow \<union> ?D1" unfolding d1 dr by auto
    have dj: "?Drow \<inter> ?D1 = {}" unfolding d1 dr by auto
    have f1: "finite ?D1" by (rule finite_subset[of _ "occupied g1"]) auto
    have "card ?D = card ?Drow + card ?D1"
      unfolding un by (rule card_Un_disjoint[OF finite_doomedFrom f1 dj])
    then have cd: "removed + int (card ?Drow) + int (card ?D1) = removed + int (card ?D)" by simp
    from "1.IH"[OF True c refl]
    obtain g' where
      r: "checkForFloating_removeRows (row + 1) conn g1 (removed + int (card ?Drow))
            = Some (g', removed + int (card ?Drow) + int (card ?D1))"
      and b': "bubbleAt g' = (\<lambda>p. if p \<in> occupied g1 \<and> int (row + 1) \<le> fst p \<and> p \<notin> conn
                                 then None else bubbleAt g1 p)"
      by blast
    have "bubbleAt g' = (\<lambda>p. if p \<in> occupied g \<and> int row \<le> fst p \<and> p \<notin> conn then None
                               else bubbleAt g p)"
      unfolding b' b1 o1 dr by (auto simp: fun_eq_iff occupied_def)
    with r cd True c show ?thesis by (simp add: unfold)
  qed
qed

lemma checkForFloating_result:
  "\<exists>g'. checkForFloating s
           = Some (s\<lparr>grid := g',
                     score := score s + 150 * int (card (occupied (grid s) - occupied g'))\<rparr>)
        \<and> occupied g' \<subseteq> occupied (grid s)
        \<and> (\<forall>p \<in> occupied g'. bubbleAt g' p = bubbleAt (grid s) p)
        \<and> (\<forall>p \<in> occupied g'. anchored (occupied g') p)"
proof (cases "length (grid s) = 0")
  case True
  then have "occupied (grid s) = {}" using occupied_fst[of _ "grid s"] by fastforce
  with True show ?thesis
    by (intro exI[of _ "grid s"]) (simp add: checkForFloating_def)
next
  case False
  let ?g = "grid s"
  have "bfsInv ?g {} {} []" by (simp add: bfsInv_def)
  from checkForFloating_seeds_inv[OF this, of 0]
  obtain V C Q g1 where
    seeds: "checkForFloating_seeds 0 {} {} [] ?g = Some (V, C, Q, g1)"
    and b1: "bubbleAt g1 = bubbleAt ?g" and inv: "bfsInv ?g V C Q" by blast
  from inv have "bfsInv g1 V C Q" by (simp add: bfsInv_cong[OF b1])
  from checkForFloating_bfs_inv[OF this]
  obtain C' g2 where
    bfs: "checkForFloating_bfs V C Q g1 = Some (C', g2)"
    and b2: "bubbleAt g2 = bubbleAt g1" and o: "C' \<subseteq> occupied g1"
    and a: "\<forall>p \<in> C'. anchored C' p" by blast
  have o2: "occupied g2 = occupied ?g" using b1 b2 by (simp add: occupied_def)
  have oc: "C' \<subseteq> occupied ?g" using o b1 by (simp add: occupied_def)
  let ?D = "{p \<in> occupied g2. int 0 \<le> fst p \<and> p \<notin> C'}"
  from checkForFloating_removeRows_result[of 0 C' g2 0]
  obtain g3 where
    rm: "checkForFloating_removeRows 0 C' g2 0 = Some (g3, 0 + int (card ?D))"
    and b3: "bubbleAt g3 = (\<lambda>p. if p \<in> occupied g2 \<and> int 0 \<le> fst p \<and> p \<notin> C' then None
                               else bubbleAt g2 p)"
    by blast
  have d: "?D = occupied ?g - C'" using occupied_fst[of _ ?g] unfolding o2 by auto
  have b3': "bubbleAt g3 p = (if p \<in> C' then bubbleAt ?g p else None)" for p
  proof (cases "p \<in> occupied ?g")
    case True
    then have "int 0 \<le> fst p" using occupied_fst[of p ?g] by simp
    with True show ?thesis unfolding b3 o2 using b1 b2 by simp
  next
    case False
    then have "bubbleAt ?g p = None" by (simp add: occupied_def)
    with False show ?thesis unfolding b3 o2 using b1 b2 by simp
  qed
  have o3: "occupied g3 = C'" using oc by (auto simp: occupied_def b3')
  have "checkForFloating s
          = Some (if int (card ?D) \<noteq> 0 then s\<lparr>grid := g3, score := score s + int (card ?D) * 150\<rparr>
                  else s\<lparr>grid := g3\<rparr>)"
    using False seeds bfs rm by (simp add: checkForFloating_def)
  also have "(if int (card ?D) \<noteq> 0 then s\<lparr>grid := g3, score := score s + int (card ?D) * 150\<rparr>
              else s\<lparr>grid := g3\<rparr>)
             = s\<lparr>grid := g3, score := score s + 150 * int (card (occupied ?g - occupied g3))\<rparr>"
    unfolding d o3 by simp
  finally have "checkForFloating s
          = Some (s\<lparr>grid := g3, score := score s + 150 * int (card (occupied ?g - occupied g3))\<rparr>)" .
  moreover have "occupied g3 \<subseteq> occupied ?g" using o3 oc by simp
  moreover have "\<forall>p \<in> occupied g3. bubbleAt g3 p = bubbleAt ?g p" by (simp add: o3 b3')
  moreover have "\<forall>p \<in> occupied g3. anchored (occupied g3) p" using a by (simp add: o3)
  ultimately show ?thesis by blast
qed

text \<open>
  A path of occupied cells, listed from its end back to its start: the start (the last
  element) is in row 0, and every other cell is a neighbour of the cell listed after it.
\<close>

fun linkedToTop :: "grid \<Rightarrow> (int \<times> int) list \<Rightarrow> bool" where
  "linkedToTop g [] = False"
| "linkedToTop g [p] = (bubbleAt g p \<noteq> None \<and> fst p = 0)"
| "linkedToTop g (q # p # path) =
     (bubbleAt g q \<noteq> None \<and> q \<in> set (fst (getNeighbors (fst p) (snd p) g))
      \<and> linkedToTop g (p # path))"

lemma anchored_linkedToTop:
  assumes "anchored (occupied g) p"
  shows "\<exists>path. linkedToTop g (p # path)"
  using assms
proof (induction rule: anchored.induct)
  case (top c)
  then have "linkedToTop g [(0, c)]" by (simp add: occupied_def)
  then show ?case by blast
next
  case (link p q)
  then obtain path where "linkedToTop g (p # path)" by blast
  with link have "linkedToTop g (q # p # path)" by (simp add: occupied_def getNeighbors_fst)
  then show ?case by blast
qed

text \<open>
  C3.  The floating-cluster cleanup never fails, and in the grid that it leaves every
  occupied cell is the end of a path of occupied cells, each a neighbour of the one
  before, that starts at an occupied cell of row 0: no occupied cell that is cut off from
  row 0 remains.
\<close>

theorem checkForFloating_linked:
  "\<exists>s'. checkForFloating s = Some s'
        \<and> (\<forall>p. bubbleAt (grid s') p \<noteq> None \<longrightarrow> (\<exists>path. linkedToTop (grid s') (p # path)))"
proof -
  from checkForFloating_result[of s] obtain g' where
    r: "checkForFloating s
       = Some (s\<lparr>grid := g', score := score s + 150 * int (card (occupied (grid s) - occupied g'))\<rparr>)"
    and a: "\<forall>p \<in> occupied g'. anchored (occupied g') p" by blast
  have "\<exists>path. linkedToTop g' (p # path)" if "bubbleAt g' p \<noteq> None" for p
  proof -
    from that have "p \<in> occupied g'" by (simp add: occupied_def)
    with a have "anchored (occupied g') p" by blast
    then show ?thesis by (rule anchored_linkedToTop)
  qed
  with r show ?thesis by simp
qed

subsection \<open>The landing cell\<close>

text \<open>
  The statement of the search for a landing cell: the cells of the three rows and three
  columns around the approximate cell that lie in the grid, in the order of the two
  loops, the distance from the centre of a cell to the landing point, and the first of
  the nearest cells of a list.
\<close>

definition neighborhood :: "int \<times> int \<Rightarrow> (int \<times> int) list" where
  "neighborhood approx =
     concat (map (\<lambda>row. map (Pair row)
                           [max 0 (snd approx - 1) .. min (int COLUMNS - 1) (snd approx + 1)])
               [max 0 (fst approx - 1) .. fst approx + 1])"

definition centerDistance :: "canvas \<Rightarrow> real \<Rightarrow> real \<Rightarrow> int \<times> int \<Rightarrow> real" where
  "centerDistance cv x y p =
     (case gridToPixel cv (fst p) (snd p) of (cx, cy) \<Rightarrow> distance cx cy x y)"

definition emptyCells :: "grid \<Rightarrow> (int \<times> int) list \<Rightarrow> (int \<times> int) list" where
  "emptyCells g ps = filter (\<lambda>p. bubbleAt g p = None) ps"

fun pickNearest ::
  "(int \<times> int \<Rightarrow> real) \<Rightarrow> (int \<times> int \<times> real) option \<Rightarrow> (int \<times> int) list
     \<Rightarrow> (int \<times> int \<times> real) option" where
  "pickNearest d best [] = best"
| "pickNearest d best (p # ps) =
     (if (case best of None \<Rightarrow> True | Some (brow, bcol, bdist) \<Rightarrow> d p < bdist)
      then pickNearest d (Some (fst p, snd p, d p)) ps
      else pickNearest d best ps)"

lemma pickNearest_append:
  "pickNearest d best (ps @ qs) = pickNearest d (pickNearest d best ps) qs"
  by (induction ps arbitrary: best) simp_all

lemma pickNearest_None: "pickNearest d best ps = None \<Longrightarrow> best = None \<and> ps = []"
proof (induction ps arbitrary: best)
  case Nil
  then show ?case by simp
next
  case (Cons p ps)
  show ?case
  proof (cases "case best of None \<Rightarrow> True | Some (brow, bcol, bdist) \<Rightarrow> d p < bdist")
    case True
    with Cons.prems have "pickNearest d (Some (fst p, snd p, d p)) ps = None" by simp
    from Cons.IH[OF this] show ?thesis by simp
  next
    case False
    with Cons.prems have "pickNearest d best ps = None" by simp
    from Cons.IH[OF this] False show ?thesis by simp
  qed
qed

lemma pickNearest_Some:
  assumes "pickNearest d best ps = Some (r, c, bd)"
    and "\<And>r0 c0 d0. best = Some (r0, c0, d0) \<Longrightarrow> d0 = d (r0, c0)"
  shows "bd = d (r, c) \<and> ((r, c) \<in> set ps \<or> best = Some (r, c, bd))
         \<and> (\<forall>q \<in> set ps. bd \<le> d q)
         \<and> (\<forall>r0 c0 d0. best = Some (r0, c0, d0) \<longrightarrow> bd \<le> d0)"
  using assms
proof (induction ps arbitrary: best)
  case Nil
  then show ?case by auto
next
  case (Cons p ps)
  show ?case
  proof (cases "case best of None \<Rightarrow> True | Some (brow, bcol, bdist) \<Rightarrow> d p < bdist")
    case True
    with Cons.prems(1) have r: "pickNearest d (Some (fst p, snd p, d p)) ps = Some (r, c, bd)"
      by simp
    have "bd = d (r, c) \<and> ((r, c) \<in> set ps \<or> Some (fst p, snd p, d p) = Some (r, c, bd))
         \<and> (\<forall>q \<in> set ps. bd \<le> d q)
         \<and> (\<forall>r0 c0 d0. Some (fst p, snd p, d p) = Some (r0, c0, d0) \<longrightarrow> bd \<le> d0)"
      by (rule Cons.IH[OF r]) simp
    then have a: "bd = d (r, c)" "(r, c) \<in> set ps \<or> p = (r, c)" "\<forall>q \<in> set ps. bd \<le> d q"
      "bd \<le> d p"
      by (auto simp: prod_eq_iff)
    from True a(4) have "\<forall>r0 c0 d0. best = Some (r0, c0, d0) \<longrightarrow> bd \<le> d0"
      by (auto split: option.splits)
    with a show ?thesis by auto
  next
    case False
    with Cons.prems(1) have r: "pickNearest d best ps = Some (r, c, bd)" by simp
    from Cons.IH[OF r Cons.prems(2)]
    have a: "bd = d (r, c)" "(r, c) \<in> set ps \<or> best = Some (r, c, bd)"
      "\<forall>q \<in> set ps. bd \<le> d q" "\<forall>r0 c0 d0. best = Some (r0, c0, d0) \<longrightarrow> bd \<le> d0"
      by auto
    from False obtain r0 c0 d0 where b: "best = Some (r0, c0, d0)" "\<not> d p < d0"
      by (auto split: option.splits)
    with a(4) have "bd \<le> d p" by fastforce
    with a show ?thesis by auto
  qed
qed

lemma findClosestSlot_cols_eq:
  assumes "rowAt g row \<noteq> None" "\<forall>c \<in> set cols. c < int COLUMNS"
  shows "findClosestSlot_cols cv x y row cols best g
           = Some (pickNearest (centerDistance cv x y) best (emptyCells g (map (Pair row) cols)))"
  using assms
proof (induction cols arbitrary: best)
  case Nil
  then show ?case by (simp add: emptyCells_def)
next
  case (Cons col cols)
  from Cons.prems have c: "cellAt g row col = Some (bubbleAt g (row, col))"
    by (intro cellAt_bubbleAt) simp_all
  from Cons.prems have ih: "findClosestSlot_cols cv x y row cols b g
           = Some (pickNearest (centerDistance cv x y) b (emptyCells g (map (Pair row) cols)))" for b
    by (intro Cons.IH) simp_all
  show ?case
  proof (cases "bubbleAt g (row, col)")
    case None
    obtain cx cy where gp: "gridToPixel cv row col = (cx, cy)" by (cases "gridToPixel cv row col")
    then have d: "distance cx cy x y = centerDistance cv x y (row, col)"
      by (simp add: centerDistance_def)
    from None have e: "emptyCells g (map (Pair row) (col # cols))
                         = (row, col) # emptyCells g (map (Pair row) cols)"
      by (simp add: emptyCells_def)
    show ?thesis unfolding e using c None by (simp add: gp d ih)
  next
    case (Some b)
    with c show ?thesis by (simp add: ih emptyCells_def)
  qed
qed

lemma findClosestSlot_rows_eq:
  assumes "\<forall>r \<in> set rows. 0 \<le> r"
  shows "\<exists>g'. findClosestSlot_rows cv x y acol rows best g
                 = Some (pickNearest (centerDistance cv x y) best
                           (emptyCells g
                              (concat (map (\<lambda>row. map (Pair row)
                                  [max 0 (acol - 1) .. min (int COLUMNS - 1) (acol + 1)]) rows))),
                         g')
              \<and> bubbleAt g' = bubbleAt g"
  using assms
proof (induction rows arbitrary: best g)
  case Nil
  then show ?case by (simp add: emptyCells_def)
next
  case (Cons row rows)
  let ?cols = "[max 0 (acol - 1) .. min (int COLUMNS - 1) (acol + 1)]"
  let ?g1 = "ensureRow (nat row) g"
  from Cons.prems have "0 \<le> row" by simp
  then have r: "rowAt ?g1 row \<noteq> None" by (rule rowAt_ensureRow_same)
  have cs: "\<forall>c \<in> set ?cols. c < int COLUMNS" by auto
  have e: "emptyCells ?g1 = emptyCells g" by (intro ext) (simp add: emptyCells_def)
  have c: "findClosestSlot_cols cv x y row ?cols best ?g1
             = Some (pickNearest (centerDistance cv x y) best (emptyCells g (map (Pair row) ?cols)))"
    using findClosestSlot_cols_eq[OF r cs] by (simp add: e)
  from Cons.prems have "\<forall>r \<in> set rows. 0 \<le> r" by simp
  from Cons.IH[OF this, of "pickNearest (centerDistance cv x y) best (emptyCells g (map (Pair row) ?cols))" ?g1]
  obtain g' where
    "findClosestSlot_rows cv x y acol rows
        (pickNearest (centerDistance cv x y) best (emptyCells g (map (Pair row) ?cols))) ?g1
       = Some (pickNearest (centerDistance cv x y)
                 (pickNearest (centerDistance cv x y) best (emptyCells g (map (Pair row) ?cols)))
                 (emptyCells g (concat (map (\<lambda>row. map (Pair row) ?cols) rows))), g')"
    "bubbleAt g' = bubbleAt g"
    by (auto simp: e)
  with c show ?case
    by (intro exI[of _ g']) (simp add: Let_def emptyCells_def pickNearest_append)
qed

lemma bubbleAt_ensureRow_fun [simp]: "bubbleAt (ensureRow r g) = bubbleAt g"
  by (intro ext) simp

lemma findClosestSlot_neighbors_eq:
  assumes "\<forall>q \<in> set ns. inRange q"
  shows "\<exists>g'. findClosestSlot_neighbors ns approx g
                 = Some (case find (\<lambda>q. bubbleAt g q = None) ns of Some q \<Rightarrow> q | None \<Rightarrow> approx, g')
              \<and> bubbleAt g' = bubbleAt g"
  using assms
proof (induction ns arbitrary: g)
  case Nil
  then show ?case by simp
next
  case (Cons n ns)
  obtain nr nc where n: "n = (nr, nc)" by (cases n)
  let ?g1 = "ensureRow (nat nr) g"
  from Cons.prems have r: "0 \<le> nr" "nc < int COLUMNS" by (simp_all add: n inRange_def)
  then have "rowAt ?g1 nr \<noteq> None" by (intro rowAt_ensureRow_same)
  then have c: "cellAt ?g1 nr nc = Some (bubbleAt g (nr, nc))"
    using cellAt_bubbleAt[of ?g1 nr nc] r(2) by simp
  show ?case
  proof (cases "bubbleAt g (nr, nc)")
    case None
    with c show ?thesis by (simp add: n Let_def)
  next
    case (Some b)
    from Cons.prems have "\<forall>q \<in> set ns. inRange q" by simp
    from Cons.IH[OF this, of ?g1] obtain g' where
      "findClosestSlot_neighbors ns approx ?g1
         = Some (case find (\<lambda>q. bubbleAt g q = None) ns of Some q \<Rightarrow> q | None \<Rightarrow> approx, g')"
      "bubbleAt g' = bubbleAt g" by auto
    with c Some show ?thesis by (intro exI[of _ g']) (simp add: n Let_def)
  qed
qed

lemma set_neighborhood:
  "set (neighborhood (r, c)) =
     {max 0 (r - 1) .. r + 1} \<times> {max 0 (c - 1) .. min (int COLUMNS - 1) (c + 1)}"
  by (auto simp: neighborhood_def)

lemma pixelToGrid_bounds:
  assumes "pixelToGrid cv x y = (r, c)"
  shows "0 \<le> r" "0 \<le> c" "c \<le> int COLUMNS - 1"
  using assms by (auto simp: pixelToGrid_def Let_def COLUMNS_def)

lemma hexNeighbors_near:
  assumes "q \<in> set (hexNeighbors r c)"
  shows "inRange q" "r - 1 \<le> fst q" "fst q \<le> r + 1" "c - 1 \<le> snd q" "snd q \<le> c + 1"
  using assms by (auto simp: hexNeighbors_def offsetsOdd_def offsetsEven_def split: if_splits)

lemma hexNeighbors_neighborhood:
  assumes "q \<in> set (hexNeighbors r c)"
  shows "q \<in> set (neighborhood (r, c))"
proof -
  from hexNeighbors_near[OF assms]
  have "max 0 (r - 1) \<le> fst q" "fst q \<le> r + 1" "max 0 (c - 1) \<le> snd q"
    "snd q \<le> min (int COLUMNS - 1) (c + 1)"
    by (auto simp: inRange_def)
  then show ?thesis unfolding set_neighborhood by (cases q) simp
qed

text \<open>
  The distance that the search compares is the Euclidean distance from the landing point
  to the centre of the cell.
\<close>

lemma centerDistance_euclidean:
  "centerDistance cv x y p =
     sqrt ((fst (gridToPixel cv (fst p) (snd p)) - x)\<^sup>2
           + (snd (gridToPixel cv (fst p) (snd p)) - y)\<^sup>2)"
  by (simp add: centerDistance_def distance_def Let_def power2_eq_square split: prod.splits)

lemma neighborhood_inRange:
  assumes "q \<in> set (neighborhood (r, c))"
  shows "inRange q"
proof -
  from assms have "max 0 (r - 1) \<le> fst q" "max 0 (c - 1) \<le> snd q"
    "snd q \<le> min (int COLUMNS - 1) (c + 1)"
    unfolding set_neighborhood by auto
  then show ?thesis by (simp add: inRange_def)
qed

lemma findClosestSlot_result:
  "\<exists>p g'. findClosestSlot cv x y g = Some (p, g')
     \<and> bubbleAt g' = bubbleAt g \<and> inRange p
     \<and> (emptyCells g (neighborhood (pixelToGrid cv x y)) \<noteq> [] \<longrightarrow>
            p \<in> set (emptyCells g (neighborhood (pixelToGrid cv x y)))
            \<and> (\<forall>q \<in> set (emptyCells g (neighborhood (pixelToGrid cv x y))).
                   centerDistance cv x y p \<le> centerDistance cv x y q))
     \<and> (emptyCells g (neighborhood (pixelToGrid cv x y)) = [] \<longrightarrow>
            p = (if bubbleAt g (pixelToGrid cv x y) = None then pixelToGrid cv x y
                 else case find (\<lambda>q. bubbleAt g q = None)
                             (fst (getNeighbors (fst (pixelToGrid cv x y))
                                     (snd (pixelToGrid cv x y)) g)) of
                        Some q \<Rightarrow> q
                      | None \<Rightarrow> pixelToGrid cv x y)
            \<and> p = pixelToGrid cv x y)"
proof -
  obtain arow acol where a: "pixelToGrid cv x y = (arow, acol)" by (cases "pixelToGrid cv x y")
  note ab = pixelToGrid_bounds[OF a]
  let ?d = "centerDistance cv x y"
  let ?E = "emptyCells g (neighborhood (arow, acol))"
  have "\<forall>r \<in> set [max 0 (arow - 1) .. arow + 1]. 0 \<le> r" by auto
  from findClosestSlot_rows_eq[OF this, of cv x y acol None g]
  obtain g1 where
    rows: "findClosestSlot_rows cv x y acol [max 0 (arow - 1) .. arow + 1] None g
             = Some (pickNearest ?d None ?E, g1)"
    and b1: "bubbleAt g1 = bubbleAt g"
    by (auto simp: neighborhood_def)
  show ?thesis
  proof (cases "pickNearest ?d None ?E")
    case (Some best)
    obtain r c bd where best: "best = (r, c, bd)" by (cases best)
    from Some have ne: "?E \<noteq> []" by auto
    from pickNearest_Some[of ?d None ?E r c bd] Some best
    have m: "(r, c) \<in> set ?E" "\<forall>q \<in> set ?E. ?d (r, c) \<le> ?d q" by auto
    from m(1) have "(r, c) \<in> set (neighborhood (arow, acol))" by (simp add: emptyCells_def)
    then have "inRange (r, c)" by (rule neighborhood_inRange)
    moreover have "findClosestSlot cv x y g = Some ((r, c), g1)"
      using rows Some best by (simp add: findClosestSlot_def a)
    ultimately show ?thesis using ne m b1 unfolding a
      by (intro exI[of _ "(r, c)"] exI[of _ g1]) simp
  next
    case None
    from pickNearest_None[OF None] have e: "?E = []" by simp
    then have occ: "bubbleAt g q \<noteq> None" if "q \<in> set (neighborhood (arow, acol))" for q
      using that by (auto simp: emptyCells_def filter_empty_conv)
    have "(arow, acol) \<in> set (neighborhood (arow, acol))"
      using ab unfolding set_neighborhood by simp
    from occ[OF this] obtain b where b: "bubbleAt g (arow, acol) = Some b" by auto
    have fn: "find (\<lambda>q. bubbleAt g q = None) (hexNeighbors arow acol) = None"
      using occ hexNeighbors_neighborhood by (auto simp: find_None_iff)
    then have fb: "(if bubbleAt g (arow, acol) = None then (arow, acol)
                    else case find (\<lambda>q. bubbleAt g q = None) (hexNeighbors arow acol) of
                           Some q \<Rightarrow> q | None \<Rightarrow> (arow, acol)) = (arow, acol)"
      by simp
    let ?g2 = "ensureRow (nat arow) g1"
    have "rowAt ?g2 arow \<noteq> None" using ab(1) by (rule rowAt_ensureRow_same)
    then have c: "cellAt ?g2 arow acol = Some (Some b)"
      using cellAt_bubbleAt[of ?g2 arow acol] ab(3) b b1 by simp
    obtain g3 where gn: "getNeighbors arow acol ?g2 = (hexNeighbors arow acol, g3)"
      and b3: "bubbleAt g3 = bubbleAt ?g2"
      using getNeighbors_eq[of arow acol ?g2] by (cases "getNeighbors arow acol ?g2") auto
    have "\<forall>q \<in> set (hexNeighbors arow acol). inRange q" using hexNeighbors_near(1) by blast
    from findClosestSlot_neighbors_eq[OF this, of "(arow, acol)" g3] b3 b1
    obtain g' where
      n: "findClosestSlot_neighbors (hexNeighbors arow acol) (arow, acol) g3
         = Some (case find (\<lambda>q. bubbleAt g q = None) (hexNeighbors arow acol) of
                   Some q \<Rightarrow> q | None \<Rightarrow> (arow, acol), g')"
      and b': "bubbleAt g' = bubbleAt g"
      by auto
    have ir: "inRange (arow, acol)" using ab by (simp add: inRange_def)
    from n have "findClosestSlot cv x y g = Some ((arow, acol), g')"
      using rows None c gn fb b by (simp add: findClosestSlot_def a Let_def)
    then show ?thesis using e fn b b' ir unfolding a getNeighbors_fst
      by (intro exI[of _ "(arow, acol)"] exI[of _ g']) simp
  qed
qed

text \<open>
  C7.  For every landing point and every grid, \<open>findClosestSlot\<close> returns a cell without
  failure.  If the neighbourhood of the approximate cell \<open>pixelToGrid cv x y\<close> (its three
  rows and three columns, as far as they lie in the grid) has an empty cell, the result is
  an empty cell of the neighbourhood, and no empty cell of the neighbourhood has its centre
  (as \<open>gridToPixel\<close> gives it) at a smaller Euclidean distance from the landing point.  If
  it has none, the result is the approximate cell if that is empty, else the first empty
  cell among its direct neighbours, else the approximate cell; and since the approximate
  cell and its direct neighbours all lie in the neighbourhood, this is always the
  approximate cell itself, occupied as it is.
\<close>

theorem findClosestSlot_nearest:
  "\<exists>p g'. findClosestSlot cv x y g = Some (p, g')
     \<and> (emptyCells g (neighborhood (pixelToGrid cv x y)) \<noteq> [] \<longrightarrow>
            p \<in> set (emptyCells g (neighborhood (pixelToGrid cv x y)))
            \<and> (\<forall>q \<in> set (emptyCells g (neighborhood (pixelToGrid cv x y))).
                   sqrt ((fst (gridToPixel cv (fst p) (snd p)) - x)\<^sup>2
                         + (snd (gridToPixel cv (fst p) (snd p)) - y)\<^sup>2)
                   \<le> sqrt ((fst (gridToPixel cv (fst q) (snd q)) - x)\<^sup>2
                           + (snd (gridToPixel cv (fst q) (snd q)) - y)\<^sup>2)))
     \<and> (emptyCells g (neighborhood (pixelToGrid cv x y)) = [] \<longrightarrow>
            p = (if bubbleAt g (pixelToGrid cv x y) = None then pixelToGrid cv x y
                 else case find (\<lambda>q. bubbleAt g q = None)
                             (fst (getNeighbors (fst (pixelToGrid cv x y))
                                     (snd (pixelToGrid cv x y)) g)) of
                        Some q \<Rightarrow> q
                      | None \<Rightarrow> pixelToGrid cv x y)
            \<and> p = pixelToGrid cv x y)"
proof -
  from findClosestSlot_result[of cv x y g] obtain p g' where
    r: "findClosestSlot cv x y g = Some (p, g')"
    and n: "emptyCells g (neighborhood (pixelToGrid cv x y)) \<noteq> [] \<longrightarrow>
            p \<in> set (emptyCells g (neighborhood (pixelToGrid cv x y)))
            \<and> (\<forall>q \<in> set (emptyCells g (neighborhood (pixelToGrid cv x y))).
                   centerDistance cv x y p \<le> centerDistance cv x y q)"
    and f: "emptyCells g (neighborhood (pixelToGrid cv x y)) = [] \<longrightarrow>
            p = (if bubbleAt g (pixelToGrid cv x y) = None then pixelToGrid cv x y
                 else case find (\<lambda>q. bubbleAt g q = None)
                             (fst (getNeighbors (fst (pixelToGrid cv x y))
                                     (snd (pixelToGrid cv x y)) g)) of
                        Some q \<Rightarrow> q
                      | None \<Rightarrow> pixelToGrid cv x y)
            \<and> p = pixelToGrid cv x y"
    by blast
  from n have "emptyCells g (neighborhood (pixelToGrid cv x y)) \<noteq> [] \<longrightarrow>
            p \<in> set (emptyCells g (neighborhood (pixelToGrid cv x y)))
            \<and> (\<forall>q \<in> set (emptyCells g (neighborhood (pixelToGrid cv x y))).
                   sqrt ((fst (gridToPixel cv (fst p) (snd p)) - x)\<^sup>2
                         + (snd (gridToPixel cv (fst p) (snd p)) - y)\<^sup>2)
                   \<le> sqrt ((fst (gridToPixel cv (fst q) (snd q)) - x)\<^sup>2
                           + (snd (gridToPixel cv (fst q) (snd q)) - y)\<^sup>2))"
    unfolding centerDistance_euclidean .
  with r f show ?thesis by blast
qed

subsection \<open>Match resolution and scoring\<close>

text \<open>
  A board of three rows: a cluster of three bubbles of one colour in the corner
  (cells \<open>(0,0)\<close>, \<open>(0,1)\<close> and \<open>(1,0)\<close>), a bubble of another colour next to it in row 0,
  and a bubble in row 2 that touches no other bubble.
\<close>

definition exampleBoard :: grid where
  "exampleBoard =
     [Some [Some (makeGridBubble exampleCanvas 0 0 ''#ff6b6b''),
             Some (makeGridBubble exampleCanvas 0 1 ''#ff6b6b''),
             Some (makeGridBubble exampleCanvas 0 2 ''#1982c4''),
             None, None, None, None, None, None, None, None, None, None, None],
      Some [Some (makeGridBubble exampleCanvas 1 0 ''#ff6b6b''),
             None, None, None, None, None, None, None, None, None, None, None, None, None],
      Some [None, None, None, None, None,
             Some (makeGridBubble exampleCanvas 2 5 ''#1982c4''),
             None, None, None, None, None, None, None, None]]"

lemma makeGridBubble_simps [simp]:
  "bubble_row (makeGridBubble cv row col color) = row"
  "bubble_col (makeGridBubble cv row col color) = col"
  "bubble_color (makeGridBubble cv row col color) = color"
  by (simp_all add: makeGridBubble_def Let_def split: prod.splits)

lemma exampleBoard_cells:
  "bubbleAt exampleBoard (0, 0) = Some (makeGridBubble exampleCanvas 0 0 ''#ff6b6b'')"
  "bubbleAt exampleBoard (0, 1) = Some (makeGridBubble exampleCanvas 0 1 ''#ff6b6b'')"
  "bubbleAt exampleBoard (1, 0) = Some (makeGridBubble exampleCanvas 1 0 ''#ff6b6b'')"
  "bubbleAt exampleBoard (2, 5) = Some (makeGridBubble exampleCanvas 2 5 ''#1982c4'')"
  by (simp_all add: bubbleAt_def cellAt_def rowAt_def exampleBoard_def COLUMNS_def)

text \<open>
  The invariant of the data model: the \<^verbatim>\<open>row\<close> and \<^verbatim>\<open>col\<close> fields of a stored bubble
  are the indices of the cell that stores it.  \<open>cellsOk\<close> states it of the cells that
  \<open>getBubble\<close> reads, and \<open>coordsOk\<close> is a check of the arrays that implies it.
  \<open>makeGridBubble\<close> establishes the invariant for every bubble that the script stores:
  it holds of the grid that \<open>init\<close> builds, and every handler keeps it.
\<close>

definition coordsOk :: "grid \<Rightarrow> bool" where
  "coordsOk g =
     list_all (\<lambda>(r, row). case row of
                  None \<Rightarrow> True
                | Some cs \<Rightarrow>
                    list_all (\<lambda>(c, cell). case cell of
                                None \<Rightarrow> True
                              | Some b \<Rightarrow> bubble_row b = int r \<and> bubble_col b = int c)
                      (enumerate 0 cs))
       (enumerate 0 g)"

definition cellOf :: "bubble \<Rightarrow> int \<times> int" where
  "cellOf b = (bubble_row b, bubble_col b)"

lemma bubbleAt_SomeE:
  assumes "bubbleAt g (r, c) = Some b"
  obtains cs where "rowAt g r = Some cs" "0 \<le> r" "nat r < length g" "g ! nat r = Some cs"
    "0 \<le> c" "nat c < length cs" "cs ! nat c = Some b" "c < int COLUMNS"
proof -
  from assms have c: "c < int COLUMNS" by (simp add: bubbleAt_def split: if_splits)
  with assms have "cellAt g r c = Some (Some b)"
    by (simp add: bubbleAt_def split: option.splits)
  then obtain cs where cs: "rowAt g r = Some cs"
    and e: "(if 0 \<le> c \<and> nat c < length cs then cs ! nat c else None) = Some b"
    by (auto simp: cellAt_def split: option.splits)
  from cs have r: "0 \<le> r" "nat r < length g" "g ! nat r = Some cs"
    by (simp_all add: rowAt_def split: if_splits)
  from e have "0 \<le> c" "nat c < length cs" "cs ! nat c = Some b"
    by (simp_all split: if_splits)
  with cs r c show ?thesis by (intro that)
qed

lemma coordsOk_bubbleAt:
  assumes "coordsOk g" "bubbleAt g p = Some b"
  shows "cellOf b = p"
proof -
  obtain r c where p: "p = (r, c)" by (cases p)
  from assms(2) obtain cs where r: "0 \<le> r" "nat r < length g" "g ! nat r = Some cs"
    and c: "0 \<le> c" "nat c < length cs" "cs ! nat c = Some b"
    unfolding p by (rule bubbleAt_SomeE)
  have mr: "(nat r, Some cs) \<in> set (enumerate 0 g)"
    using r by (simp add: in_set_enumerate_eq)
  have mc: "(nat c, Some b) \<in> set (enumerate 0 cs)"
    using c by (simp add: in_set_enumerate_eq)
  from assms(1) have "\<forall>x \<in> set (enumerate 0 g).
      (case x of (r, row) \<Rightarrow>
         case row of
           None \<Rightarrow> True
         | Some cs \<Rightarrow>
             list_all (\<lambda>(c, cell). case cell of
                          None \<Rightarrow> True
                        | Some b \<Rightarrow> bubble_row b = int r \<and> bubble_col b = int c)
               (enumerate 0 cs))"
    unfolding coordsOk_def list_all_iff .
  from bspec[OF this mr]
  have "\<forall>y \<in> set (enumerate 0 cs).
      (case y of (c, cell) \<Rightarrow>
         case cell of
           None \<Rightarrow> True
         | Some b \<Rightarrow> bubble_row b = r \<and> bubble_col b = int c)"
    using r(1) by (simp add: list_all_iff)
  from bspec[OF this mc] have "bubble_row b = r \<and> bubble_col b = int (nat c)"
    by simp
  with c(1) show ?thesis by (simp add: p cellOf_def)
qed

definition cellsOk :: "grid \<Rightarrow> bool" where
  "cellsOk g \<longleftrightarrow> (\<forall>p b. bubbleAt g p = Some b \<longrightarrow> cellOf b = p)"

lemma coordsOk_cellsOk: "coordsOk g \<Longrightarrow> cellsOk g"
  unfolding cellsOk_def using coordsOk_bubbleAt by blast

lemma cellsOkD: "cellsOk g \<Longrightarrow> bubbleAt g p = Some b \<Longrightarrow> cellOf b = p"
  unfolding cellsOk_def by blast

lemma cellsOk_subset:
  assumes "cellsOk g" "\<And>p b. bubbleAt g' p = Some b \<Longrightarrow> bubbleAt g p = Some b"
  shows "cellsOk g'"
  unfolding cellsOk_def using assms(2) cellsOkD[OF assms(1)] by blast

lemma cellsOk_ensureRow: "cellsOk (ensureRow r g) = cellsOk g"
  by (simp add: cellsOk_def)

lemma cellsOk_setCell:
  assumes "cellsOk g" "setCell g row col (Some b) = Some g'" "0 \<le> col" "col < int COLUMNS"
    "cellOf b = (row, col)"
  shows "cellsOk g'"
  unfolding cellsOk_def
proof (intro allI impI)
  fix p b' assume a: "bubbleAt g' p = Some b'"
  show "cellOf b' = p"
  proof (cases "p = (row, col)")
    case True
    with a bubbleAt_setCell[OF assms(2,3,4), of p] have "b' = b" by simp
    with assms(5) True show ?thesis by simp
  next
    case False
    with a bubbleAt_setCell[OF assms(2,3,4), of p] have "bubbleAt g p = Some b'" by simp
    with assms(1) show ?thesis by (rule cellsOkD)
  qed
qed

lemma cellsOk_createInitialGrid_cols:
  "createInitialGrid_cols cv random row limit col k g = Some (k', g') \<Longrightarrow> cellsOk g
     \<Longrightarrow> limit \<le> COLUMNS \<Longrightarrow> cellsOk g'"
proof (induction cv random row limit col k g rule: createInitialGrid_cols.induct)
  case (1 cv random row limit col k g)
  note unfold = createInitialGrid_cols.simps[of cv random row limit col k g]
  show ?case
  proof (cases "col < limit")
    case False
    with "1.prems"(1,2) show ?thesis by (simp add: unfold)
  next
    case True
    define bubble where
      "bubble = makeGridBubble cv (int row) (int col) (COLORS ! nat \<lfloor>random k * real (length COLORS)\<rfloor>)"
    from "1.prems"(1) True obtain g1 where
      g1: "setCell g (int row) (int col) (Some bubble) = Some g1"
      by (auto simp: unfold Let_def bubble_def split: option.splits)
    from "1.prems"(1) True g1
    have rec: "createInitialGrid_cols cv random row limit (col + 1) (k + 1) g1 = Some (k', g')"
      by (simp add: unfold Let_def bubble_def)
    have ok: "cellsOk g1"
      by (rule cellsOk_setCell[OF "1.prems"(2) g1])
         (use True "1.prems"(3) in \<open>simp_all add: bubble_def cellOf_def\<close>)
    from "1.IH"[OF True refl bubble_def g1 rec ok "1.prems"(3)] show ?thesis .
  qed
qed

lemma cellsOk_createInitialGrid_rows:
  "createInitialGrid_rows cv random initialRows row k g = Some (k', g') \<Longrightarrow> cellsOk g
     \<Longrightarrow> cellsOk g'"
proof (induction cv random initialRows row k g rule: createInitialGrid_rows.induct)
  case (1 cv random initialRows row k g)
  note unfold = createInitialGrid_rows.simps[of cv random initialRows row k g]
  show ?case
  proof (cases "row < initialRows")
    case False
    with "1.prems" show ?thesis by (simp add: unfold)
  next
    case True
    define limit where "limit = COLUMNS - (if row mod 2 \<noteq> 0 then 1 else 0)"
    from "1.prems"(1) True obtain k1 g2 where
      c: "createInitialGrid_cols cv random row limit 0 k (ensureRow row g) = Some (k1, g2)"
      by (auto simp: unfold Let_def limit_def split: option.splits)
    from "1.prems"(1) True c
    have rec: "createInitialGrid_rows cv random initialRows (row + 1) k1 g2 = Some (k', g')"
      by (simp add: unfold Let_def limit_def)
    have l: "limit \<le> COLUMNS" by (simp add: limit_def)
    have "cellsOk (ensureRow row g)" using "1.prems"(2) by (simp add: cellsOk_ensureRow)
    from cellsOk_createInitialGrid_cols[OF c this l] have ok: "cellsOk g2" .
    from "1.IH"[OF True refl limit_def c refl rec ok] show ?thesis .
  qed
qed

lemma cellsOk_init:
  assumes "init cv random = Some s0"
  shows "cellsOk (grid s0)"
proof -
  have e: "cellsOk []" by (simp add: cellsOk_def bubbleAt_def cellAt_def rowAt_def)
  from assms obtain k g where c: "createInitialGrid_rows cv random 8 0 0 [] = Some (k, g)"
    and g: "grid s0 = g"
    by (auto simp: init_def createInitialGrid_def split: option.splits)
  from cellsOk_createInitialGrid_rows[OF c e] g show ?thesis by simp
qed

lemma removeCluster_cells:
  assumes "\<forall>b \<in> set cluster. rowAt g (bubble_row b) \<noteq> None \<and> 0 \<le> bubble_col b
              \<and> bubble_col b < int COLUMNS"
  shows "bubbleAt (removeCluster cluster g) p
           = (if p \<in> cellOf ` set cluster then None else bubbleAt g p)"
  using assms
proof (induction cluster arbitrary: g)
  case Nil
  then show ?case by simp
next
  case (Cons b cluster)
  from Cons.prems obtain cs where cs: "rowAt g (bubble_row b) = Some cs"
    and c: "0 \<le> bubble_col b" "bubble_col b < int COLUMNS" by auto
  define g1 where "g1 = g[nat (bubble_row b) := Some (setEntry cs (bubble_col b) None)]"
  have sc: "setCell g (bubble_row b) (bubble_col b) None = Some g1"
    by (simp add: setCell_def cs g1_def)
  have b1: "bubbleAt g1 q = (if q = cellOf b then None else bubbleAt g q)" for q
    unfolding cellOf_def by (rule bubbleAt_setCell[OF sc c])
  have "\<forall>b' \<in> set cluster. rowAt g1 (bubble_row b') \<noteq> None \<and> 0 \<le> bubble_col b'
              \<and> bubble_col b' < int COLUMNS"
    using Cons.prems rowAt_setCell[OF sc] by simp
  from Cons.IH[OF this]
  have "bubbleAt (removeCluster cluster g1) p
          = (if p \<in> cellOf ` set cluster then None else bubbleAt g1 p)" .
  moreover have "removeCluster (b # cluster) g = removeCluster cluster g1"
    by (simp add: cs g1_def)
  ultimately show ?case by (auto simp: b1)
qed

lemma clusterPath_matching: "clusterPath g color seed (p # path) \<Longrightarrow> matching g color p"
  by (cases path) auto

lemma resolveMatches_cells:
  assumes "cellsOk (grid s)" "bubbleAt (grid s) (row, col) = Some origin"
  shows "\<exists>cells g1 g2.
           collectCluster row col (bubble_color origin) (grid s)
             = Some (map (\<lambda>p. the (bubbleAt (grid s) p)) cells, g1)
           \<and> distinct cells
           \<and> set cells
               = {p. \<exists>path. clusterPath (grid s) (bubble_color origin) (row, col) (p # path)}
           \<and> resolveMatches row col s
               = Some (if 3 \<le> length cells
                       then s\<lparr>grid := g2, score := score s + int (length cells) * 100\<rparr>
                       else s\<lparr>grid := g2\<rparr>)
           \<and> bubbleAt g2 = (\<lambda>p. if 3 \<le> length cells \<and> p \<in> set cells then None
                                  else bubbleAt (grid s) p)"
proof -
  let ?g = "grid s"
  from collectCluster_joined[of row col "bubble_color origin" ?g]
  obtain cells g1 where
    cc: "collectCluster row col (bubble_color origin) ?g
           = Some (map (\<lambda>p. the (bubbleAt ?g p)) cells, g1)"
    and b1: "bubbleAt g1 = bubbleAt ?g" and d: "distinct cells"
    and j: "set cells
              = {p. \<exists>path. clusterPath ?g (bubble_color origin) (row, col) (p # path)}"
    by blast
  define cluster where "cluster = map (\<lambda>p. the (bubbleAt ?g p)) cells"
  have m: "matching ?g (bubble_color origin) p" if "p \<in> set cells" for p
    using that j clusterPath_matching by blast
  have at: "bubbleAt ?g p = Some (the (bubbleAt ?g p))" if "p \<in> set cells" for p
    using m[OF that] by (auto simp: matching_def split: option.splits)
  have co: "cellOf (the (bubbleAt ?g p)) = p" if "p \<in> set cells" for p
    using cellsOkD[OF assms(1) at[OF that]] .
  have mc: "map cellOf cluster = cells"
    unfolding cluster_def using co by (simp add: map_idI)
  then have sc: "cellOf ` set cluster = set cells" by (metis set_map)
  have lc: "length cluster = length cells" by (simp add: cluster_def)
  have sb: "\<forall>b \<in> set cluster. bubbleAt ?g (cellOf b) = Some b"
    unfolding cluster_def using at co by auto
  have ok: "\<forall>b \<in> set cluster. rowAt g1 (bubble_row b) \<noteq> None \<and> 0 \<le> bubble_col b
              \<and> bubble_col b < int COLUMNS"
  proof
    fix b assume "b \<in> set cluster"
    with sb b1 have "bubbleAt g1 (bubble_row b, bubble_col b) = Some b" by (simp add: cellOf_def)
    then show "rowAt g1 (bubble_row b) \<noteq> None \<and> 0 \<le> bubble_col b \<and> bubble_col b < int COLUMNS"
      by (rule bubbleAt_SomeE) simp
  qed
  define g2 where "g2 = (if 3 \<le> length cluster then removeCluster cluster g1 else g1)"
  have bg2: "bubbleAt g2 = (\<lambda>p. if 3 \<le> length cells \<and> p \<in> set cells then None
                                  else bubbleAt ?g p)"
    unfolding g2_def using removeCluster_cells[OF ok] b1 by (auto simp: fun_eq_iff sc lc)
  from assms(2) have "rowAt ?g row \<noteq> None" "col < int COLUMNS"
    by (rule bubbleAt_SomeE, simp)+
  then have "cellAt ?g row col = Some (Some origin)"
    using cellAt_bubbleAt[of ?g row col] assms(2) by simp
  then have "resolveMatches row col s
               = Some (if 3 \<le> length cells
                       then s\<lparr>grid := g2, score := score s + int (length cells) * 100\<rparr>
                       else s\<lparr>grid := g2\<rparr>)"
    using cc by (simp add: resolveMatches_def cluster_def[symmetric] g2_def lc)
  with cc d j bg2 show ?thesis by blast
qed

lemma snapMovingBubble_landingE:
  assumes "cellsOk (grid s)" "movingBubble s = Some mb"
  obtains row col g0 landed cells g1 s1 s2 where
    "findClosestSlot cv (mb_x mb) (mb_y mb) (grid s) = Some ((row, col), g0)"
    "inRange (row, col)"
    "setCell (ensureRow (nat row) g0) row col
           (Some (makeGridBubble cv row col (mb_color mb))) = Some landed"
    "\<forall>p. bubbleAt landed p
              = (if p = (row, col) then Some (makeGridBubble cv row col (mb_color mb))
                 else bubbleAt (grid s) p)"
    "cellsOk landed"
    "collectCluster row col (mb_color mb) landed
         = Some (map (\<lambda>p. the (bubbleAt landed p)) cells, g1)"
    "distinct cells"
    "set cells = {p. \<exists>path. clusterPath landed (mb_color mb) (row, col) (p # path)}"
    "resolveMatches row col (s\<lparr>grid := landed\<rparr>) = Some s1"
    "3 \<le> length cells \<longrightarrow>
            (\<forall>p. bubbleAt (grid s1) p = (if p \<in> set cells then None else bubbleAt landed p))
            \<and> score s1 = score s + int (length cells) * 100"
    "length cells < 3 \<longrightarrow>
            (\<forall>p. bubbleAt (grid s1) p = bubbleAt landed p) \<and> score s1 = score s"
    "checkForFloating s1 = Some s2"
    "occupied (grid s2) \<subseteq> occupied (grid s1)"
    "\<forall>p \<in> occupied (grid s2). bubbleAt (grid s2) p = bubbleAt (grid s1) p"
    "score s2 = score s1 + int (card (occupied (grid s1) - occupied (grid s2))) * 150"
    "cellsOk (grid s2)"
    "\<forall>s'. snapMovingBubble cv random s = Some s' \<longrightarrow>
              grid s' = grid s2 \<and> score s' = score s2 \<and> nextBubble s' \<noteq> None"
    "nextBubble s \<noteq> None \<longrightarrow> snapMovingBubble cv random s \<noteq> None"
proof -
  let ?g = "grid s"
  from findClosestSlot_result[of cv "mb_x mb" "mb_y mb" ?g]
  obtain p g0 where fc0: "findClosestSlot cv (mb_x mb) (mb_y mb) ?g = Some (p, g0)"
    and b0: "bubbleAt g0 = bubbleAt ?g" and ir0: "inRange p"
    by blast
  obtain row col where p: "p = (row, col)" by (cases p)
  from fc0 have fc: "findClosestSlot cv (mb_x mb) (mb_y mb) ?g = Some ((row, col), g0)"
    by (simp add: p)
  from ir0 have ir: "inRange (row, col)" by (simp add: p)
  then have r0: "0 \<le> row" and c0: "0 \<le> col" and c1: "col < int COLUMNS"
    by (simp_all add: inRange_def)
  define nb where "nb = makeGridBubble cv row col (mb_color mb)"
  let ?g2 = "ensureRow (nat row) g0"
  have "rowAt ?g2 row \<noteq> None" using r0 by (rule rowAt_ensureRow_same)
  from setCell_total[OF this] obtain landed where
    sc: "setCell ?g2 row col (Some nb) = Some landed" by blast
  have bl: "bubbleAt landed q = (if q = (row, col) then Some nb else bubbleAt ?g q)" for q
    using bubbleAt_setCell[OF sc c0 c1, of q] b0 by simp
  have "cellsOk g0" using assms(1) by (simp add: cellsOk_def b0)
  then have ok0: "cellsOk ?g2" by (simp add: cellsOk_ensureRow)
  have cn: "cellOf nb = (row, col)" by (simp add: nb_def cellOf_def)
  have okl: "cellsOk landed" by (rule cellsOk_setCell[OF ok0 sc c0 c1 cn])
  let ?s = "s\<lparr>grid := landed\<rparr>"
  have okS: "cellsOk (grid ?s)" using okl by simp
  have atS: "bubbleAt (grid ?s) (row, col) = Some nb" by (simp add: bl)
  from resolveMatches_cells[OF okS atS] obtain cells g1 gr where
    cc0: "collectCluster row col (bubble_color nb) (grid ?s)
           = Some (map (\<lambda>p. the (bubbleAt (grid ?s) p)) cells, g1)"
    and d: "distinct cells"
    and j0: "set cells
              = {p. \<exists>path. clusterPath (grid ?s) (bubble_color nb) (row, col) (p # path)}"
    and rm0: "resolveMatches row col ?s
               = Some (if 3 \<le> length cells
                       then ?s\<lparr>grid := gr, score := score ?s + int (length cells) * 100\<rparr>
                       else ?s\<lparr>grid := gr\<rparr>)"
    and br0: "bubbleAt gr = (\<lambda>p. if 3 \<le> length cells \<and> p \<in> set cells then None
                                  else bubbleAt (grid ?s) p)"
    by blast
  have col: "bubble_color nb = mb_color mb" by (simp add: nb_def)
  from cc0 have cc: "collectCluster row col (mb_color mb) landed
         = Some (map (\<lambda>p. the (bubbleAt landed p)) cells, g1)"
    by (simp add: col)
  from j0 have j: "set cells
                     = {p. \<exists>path. clusterPath landed (mb_color mb) (row, col) (p # path)}"
    by (simp add: col)
  from br0 have br: "bubbleAt gr q = (if 3 \<le> length cells \<and> q \<in> set cells then None
                                  else bubbleAt landed q)" for q
    by simp
  define s1 where "s1 = (if 3 \<le> length cells
                       then ?s\<lparr>grid := gr, score := score ?s + int (length cells) * 100\<rparr>
                       else ?s\<lparr>grid := gr\<rparr>)"
  from rm0 have rm: "resolveMatches row col ?s = Some s1" by (simp add: s1_def)
  have g1: "grid s1 = gr" and n1: "nextBubble s1 = nextBubble s" by (simp_all add: s1_def)
  have big: "3 \<le> length cells \<longrightarrow>
            (\<forall>p. bubbleAt (grid s1) p = (if p \<in> set cells then None else bubbleAt landed p))
            \<and> score s1 = score s + int (length cells) * 100"
    by (simp add: g1 br) (simp add: s1_def)
  have small: "length cells < 3 \<longrightarrow>
            (\<forall>p. bubbleAt (grid s1) p = bubbleAt landed p) \<and> score s1 = score s"
    by (simp add: g1 br) (simp add: s1_def)
  from checkForFloating_result[of s1] obtain g3 where
    cf0: "checkForFloating s1
           = Some (s1\<lparr>grid := g3,
                      score := score s1 + 150 * int (card (occupied (grid s1) - occupied g3))\<rparr>)"
    and sub0: "occupied g3 \<subseteq> occupied (grid s1)"
    and same0: "\<forall>p \<in> occupied g3. bubbleAt g3 p = bubbleAt (grid s1) p"
    by blast
  define s2 where "s2 = s1\<lparr>grid := g3,
                      score := score s1 + 150 * int (card (occupied (grid s1) - occupied g3))\<rparr>"
  have cf: "checkForFloating s1 = Some s2" using cf0 by (simp add: s2_def)
  have g2: "grid s2 = g3" and n2: "nextBubble s2 = nextBubble s" by (simp_all add: s2_def n1)
  have sub: "occupied (grid s2) \<subseteq> occupied (grid s1)" using sub0 by (simp add: g2)
  have same: "\<forall>p \<in> occupied (grid s2). bubbleAt (grid s2) p = bubbleAt (grid s1) p"
    using same0 by (simp add: g2)
  have sc2: "score s2 = score s1 + int (card (occupied (grid s1) - occupied (grid s2))) * 150"
    by (simp add: s2_def)
  have ok2: "cellsOk (grid s2)"
  proof (rule cellsOk_subset[OF okl])
    fix q b assume a: "bubbleAt (grid s2) q = Some b"
    then have "q \<in> occupied (grid s2)" by (simp add: occupied_def)
    with same a have "bubbleAt gr q = Some b" by (simp add: g1)
    then show "bubbleAt landed q = Some b" by (simp add: br split: if_splits)
  qed
  define s3 where "s3 = (if isBoardEmpty (grid s2) then endGame True s2
                         else if hasReachedLimit cv (grid s2) then endGame False s2
                         else s2)"
  have s3: "grid s3 = grid s2" "score s3 = score s2" "nextBubble s3 = nextBubble s"
    by (simp_all add: s3_def endGame_def n2)
  have snap: "snapMovingBubble cv random s =
     (case nextBubble s3 of
        None \<Rightarrow> None
      | Some n \<Rightarrow>
          Some (s3\<lparr>currentBubble :=
                      Some (n\<lparr>sb_x := CANVAS_WIDTH cv / 2, sb_y := SHOOTER_Y cv, sb_dx := 0,
                              sb_dy := 0, sb_active := False\<rparr>),
                    nextBubble := Some (createShooterBubble cv random (grid s3)),
                    movingBubble := None\<rparr>))"
    using sc rm cf
    by (simp add: snapMovingBubble_def assms(2) fc nb_def[symmetric] Let_def s3_def[symmetric])
  have out: "\<forall>s'. snapMovingBubble cv random s = Some s' \<longrightarrow>
              grid s' = grid s2 \<and> score s' = score s2 \<and> nextBubble s' \<noteq> None"
    unfolding snap using s3(1,2) by (auto split: option.splits)
  have tot: "nextBubble s \<noteq> None \<longrightarrow> snapMovingBubble cv random s \<noteq> None"
    unfolding snap using s3(3) by (auto split: option.splits)
  have bl': "\<forall>p. bubbleAt landed p
              = (if p = (row, col) then Some (makeGridBubble cv row col (mb_color mb))
                 else bubbleAt (grid s) p)"
    using bl by (simp add: nb_def)
  from fc ir sc[unfolded nb_def] bl' okl cc d j rm big small cf sub same sc2 ok2 out tot
  show thesis by (rule that)
qed

lemma cellsOk_snapMovingBubble:
  assumes "cellsOk (grid s)" "snapMovingBubble cv random s = Some s'"
  shows "cellsOk (grid s')"
proof -
  from assms(2) obtain mb where mb: "movingBubble s = Some mb"
    by (auto simp: snapMovingBubble_def split: option.splits)
  show ?thesis
  proof (rule snapMovingBubble_landingE[OF assms(1) mb, of cv random])
    fix s2
    assume "cellsOk (grid s2)"
      and "\<forall>s'. snapMovingBubble cv random s = Some s' \<longrightarrow>
              grid s' = grid s2 \<and> score s' = score s2 \<and> nextBubble s' \<noteq> None"
    with assms(2) show ?thesis by simp
  qed
qed

lemma cellsOk_updateMovingBubble:
  assumes "cellsOk (grid s)" "updateMovingBubble cv random delta s = Some s'"
  shows "cellsOk (grid s')"
proof (cases "movingBubble s")
  case None
  with assms show ?thesis by (simp add: updateMovingBubble_def)
next
  case (Some mb)
  let ?s1 = "s\<lparr>movingBubble := Some (moveBubble cv delta mb)\<rparr>"
  have ok: "cellsOk (grid ?s1)" using assms(1) by simp
  from assms(2) Some consider "snapMovingBubble cv random ?s1 = Some s'" | "grid s' = grid s"
    by (auto simp: updateMovingBubble_def Let_def endGame_def split: if_splits)
  then show ?thesis
  proof cases
    case 1
    from cellsOk_snapMovingBubble[OF ok 1] show ?thesis .
  next
    case 2
    with assms(1) show ?thesis by simp
  qed
qed

lemma grid_handlePointer: "grid (handlePointer delta s) = grid s"
  by (simp add: handlePointer_def Let_def)

lemma grid_launchBubble: "grid (launchBubble s) = grid s"
  by (simp add: launchBubble_def Let_def split: option.splits)

lemma cellsOk_step:
  assumes "cellsOk (grid s)" "step cv random e s = Some s'"
  shows "cellsOk (grid s')"
proof (cases e)
  case (Frame timestamp)
  show ?thesis
  proof (cases "gameOver s")
    case True
    with assms Frame show ?thesis by (simp add: loop_def)
  next
    case False
    let ?s1 = "handlePointer ((timestamp - lastTime s) / 1000) (s\<lparr>lastTime := timestamp\<rparr>)"
    from assms(2) Frame False
    have u: "updateMovingBubble cv (random 0) ((timestamp - lastTime s) / 1000) ?s1 = Some s'"
      by (simp add: loop_def update_def Let_def)
    have "cellsOk (grid ?s1)" using assms(1) by (simp add: grid_handlePointer)
    from cellsOk_updateMovingBubble[OF this u] show ?thesis .
  qed
next
  case (KeyDown key repeat)
  show ?thesis
  proof (cases repeat)
    case True
    with assms KeyDown show ?thesis by (simp add: handleKeyDown_def)
  next
    case False
    define s1 where "s1 = (if key = ''ArrowLeft'' \<or> key = ''ArrowRight''
                           then s\<lparr>keys := insert key (keys s)\<rparr> else s)"
    define s2 where "s2 = (if key = '' '' \<or> key = ''Spacebar'' then launchBubble s1 else s1)"
    have g: "grid s2 = grid s" by (simp add: s2_def s1_def grid_launchBubble)
    from assms(2) KeyDown False
    have r: "(if key = ''Enter'' \<and> gameOver s2 then init cv random else Some s2) = Some s'"
      unfolding s1_def s2_def by (simp add: handleKeyDown_def Let_def)
    show ?thesis
    proof (cases "key = ''Enter'' \<and> gameOver s2")
      case True
      with r have "init cv random = Some s'" by simp
      then show ?thesis by (rule cellsOk_init)
    next
      case False
      with r have "s' = s2" by auto
      with g assms(1) show ?thesis by simp
    qed
  qed
next
  case (KeyUp key)
  with assms show ?thesis by (auto simp: handleKeyUp_def)
next
  case (MouseMove x y)
  with assms show ?thesis by (auto simp: handlePointerMove_def Let_def)
next
  case Click
  with assms show ?thesis by (auto simp: handlePointerDown_def grid_launchBubble)
next
  case (TouchStart x y)
  with assms show ?thesis by (auto simp: handleTouchStart_def Let_def grid_launchBubble)
next
  case (TouchMove x y)
  with assms show ?thesis by (auto simp: handleTouchMove_def Let_def)
qed

lemma cellsOk_run:
  "run cv events s = Some s' \<Longrightarrow> cellsOk (grid s) \<Longrightarrow> cellsOk (grid s')"
proof (induction events arbitrary: s)
  case Nil
  then show ?case by simp
next
  case (Cons a events)
  obtain random e where a: "a = (random, e)" by (cases a)
  from Cons.prems(1) obtain s1 where s1: "step cv random e s = Some s1"
    and r: "run cv events s1 = Some s'"
    by (auto simp: a split: option.splits)
  from Cons.IH[OF r cellsOk_step[OF Cons.prems(2) s1]] show ?case .
qed

text \<open>
  C6.  The grid of every state that the script reaches from \<open>init\<close> satisfies the
  invariant of the data model.  In a state that satisfies it and has a projectile in
  flight, a landing (\<open>snapMovingBubble\<close>) goes as follows.  The projectile is stored in
  the cell \<open>(row, col)\<close> that \<open>findClosestSlot\<close> returns, which changes no other cell.
  The flood fill at that cell returns the bubbles of a list \<open>cells\<close> of distinct cells,
  and these are exactly the cells joined to the landing cell by a path of adjacent cells
  that all hold a bubble of the colour of the projectile: the connected cluster of that
  colour at the landing cell.  If the cluster has at least three cells, match resolution
  clears exactly the cells of the cluster, leaves every other cell as it is, and adds 100
  times the size of the cluster to the score; if it has fewer, match resolution changes
  neither the content of any cell nor the score.  The cleanup that follows only clears
  cells, and it adds 150 times the number of cells that it clears to the score.  The
  state that the landing returns has the grid and the score that the cleanup leaves, and
  the landing returns a state whenever a next bubble is there.  (Match resolution may
  append empty rows to the array of rows; the content of every cell, as \<open>getBubble\<close> reads
  it, is what the statement is about.)
\<close>

theorem landing_removal_and_score:
  "(\<forall>events s0 s'. init cv random0 = Some s0 \<and> run cv events s0 = Some s'
        \<longrightarrow> cellsOk (grid s'))
   \<and> (cellsOk (grid s) \<and> movingBubble s = Some mb \<longrightarrow>
        (\<exists>row col g0 landed cells g1 s1 s2.
             findClosestSlot cv (mb_x mb) (mb_y mb) (grid s) = Some ((row, col), g0)
           \<and> inRange (row, col)
           \<and> setCell (ensureRow (nat row) g0) row col
                 (Some (makeGridBubble cv row col (mb_color mb))) = Some landed
           \<and> (\<forall>p. bubbleAt landed p
                    = (if p = (row, col) then Some (makeGridBubble cv row col (mb_color mb))
                       else bubbleAt (grid s) p))
           \<and> cellsOk landed
           \<and> collectCluster row col (mb_color mb) landed
               = Some (map (\<lambda>p. the (bubbleAt landed p)) cells, g1)
           \<and> distinct cells
           \<and> set cells = {p. \<exists>path. clusterPath landed (mb_color mb) (row, col) (p # path)}
           \<and> resolveMatches row col (s\<lparr>grid := landed\<rparr>) = Some s1
           \<and> (3 \<le> length cells \<longrightarrow>
                  (\<forall>p. bubbleAt (grid s1) p
                         = (if p \<in> set cells then None else bubbleAt landed p))
                  \<and> score s1 = score s + int (length cells) * 100)
           \<and> (length cells < 3 \<longrightarrow>
                  (\<forall>p. bubbleAt (grid s1) p = bubbleAt landed p) \<and> score s1 = score s)
           \<and> checkForFloating s1 = Some s2
           \<and> occupied (grid s2) \<subseteq> occupied (grid s1)
           \<and> (\<forall>p \<in> occupied (grid s2). bubbleAt (grid s2) p = bubbleAt (grid s1) p)
           \<and> score s2 = score s1 + int (card (occupied (grid s1) - occupied (grid s2))) * 150
           \<and> cellsOk (grid s2)
           \<and> (\<forall>s'. snapMovingBubble cv random s = Some s' \<longrightarrow>
                    grid s' = grid s2 \<and> score s' = score s2 \<and> nextBubble s' \<noteq> None)
           \<and> (nextBubble s \<noteq> None \<longrightarrow> snapMovingBubble cv random s \<noteq> None)))"
proof (intro conjI allI impI)
  fix events s0 s'
  assume "init cv random0 = Some s0 \<and> run cv events s0 = Some s'"
  then have i: "init cv random0 = Some s0" and r: "run cv events s0 = Some s'" by simp_all
  from cellsOk_run[OF r cellsOk_init[OF i]] show "cellsOk (grid s')" .
next
  assume "cellsOk (grid s) \<and> movingBubble s = Some mb"
  then have ok: "cellsOk (grid s)" and mb: "movingBubble s = Some mb" by simp_all
  show "\<exists>row col g0 landed cells g1 s1 s2.
             findClosestSlot cv (mb_x mb) (mb_y mb) (grid s) = Some ((row, col), g0)
           \<and> inRange (row, col)
           \<and> setCell (ensureRow (nat row) g0) row col
                 (Some (makeGridBubble cv row col (mb_color mb))) = Some landed
           \<and> (\<forall>p. bubbleAt landed p
                    = (if p = (row, col) then Some (makeGridBubble cv row col (mb_color mb))
                       else bubbleAt (grid s) p))
           \<and> cellsOk landed
           \<and> collectCluster row col (mb_color mb) landed
               = Some (map (\<lambda>p. the (bubbleAt landed p)) cells, g1)
           \<and> distinct cells
           \<and> set cells = {p. \<exists>path. clusterPath landed (mb_color mb) (row, col) (p # path)}
           \<and> resolveMatches row col (s\<lparr>grid := landed\<rparr>) = Some s1
           \<and> (3 \<le> length cells \<longrightarrow>
                  (\<forall>p. bubbleAt (grid s1) p
                         = (if p \<in> set cells then None else bubbleAt landed p))
                  \<and> score s1 = score s + int (length cells) * 100)
           \<and> (length cells < 3 \<longrightarrow>
                  (\<forall>p. bubbleAt (grid s1) p = bubbleAt landed p) \<and> score s1 = score s)
           \<and> checkForFloating s1 = Some s2
           \<and> occupied (grid s2) \<subseteq> occupied (grid s1)
           \<and> (\<forall>p \<in> occupied (grid s2). bubbleAt (grid s2) p = bubbleAt (grid s1) p)
           \<and> score s2 = score s1 + int (card (occupied (grid s1) - occupied (grid s2))) * 150
           \<and> cellsOk (grid s2)
           \<and> (\<forall>s'. snapMovingBubble cv random s = Some s' \<longrightarrow>
                    grid s' = grid s2 \<and> score s' = score s2 \<and> nextBubble s' \<noteq> None)
           \<and> (nextBubble s \<noteq> None \<longrightarrow> snapMovingBubble cv random s \<noteq> None)"
    by (rule snapMovingBubble_landingE[OF ok mb, of cv random],
        rule_tac x = row in exI, rule_tac x = col in exI, rule_tac x = g0 in exI,
        rule_tac x = landed in exI, rule_tac x = cells in exI, rule_tac x = g1 in exI,
        rule_tac x = s1 in exI, rule_tac x = s2 in exI, intro conjI) assumption+
qed

text \<open>
  C10.  For all integers \<open>row\<close> and \<open>col\<close>, \<open>getBubble\<close> returns without a
  \<^verbatim>\<open>TypeError\<close>, and it returns \<^verbatim>\<open>null\<close> and leaves the grid as it is when the
  row is negative, the column is negative or at least \<open>COLUMNS\<close>, or the row is not below
  the number of allocated rows.  The flood fill and the cleanup, which read cells through
  it, return without a \<^verbatim>\<open>TypeError\<close> as well.
\<close>

theorem getBubble_total:
  "(\<exists>b g'. getBubble row col g = Some (b, g'))
   \<and> (row < 0 \<or> col < 0 \<or> col \<ge> int COLUMNS \<or> row \<ge> int (length g)
          \<longrightarrow> getBubble row col g = Some (None, g))
   \<and> (\<exists>cluster g'. collectCluster row col color g = Some (cluster, g'))
   \<and> (\<exists>s'. checkForFloating s = Some s')"
proof (intro conjI impI)
  show "\<exists>b g'. getBubble row col g = Some (b, g')" by (simp add: getBubble_eq)
  show "getBubble row col g = Some (None, g)"
    if "row < 0 \<or> col < 0 \<or> col \<ge> int COLUMNS \<or> row \<ge> int (length g)"
    using that by (auto simp: getBubble_def)
  show "\<exists>cluster g'. collectCluster row col color g = Some (cluster, g')"
    using collectCluster_correct[of row col color g] by blast
  show "\<exists>s'. checkForFloating s = Some s'"
    using checkForFloating_result[of s] by blast
qed

lemma coordsOk_exampleBoard: "coordsOk exampleBoard"
  by (simp add: coordsOk_def exampleBoard_def)

subsection \<open>A landing on the example board\<close>

text \<open>
  On the example board the flood fill at cell \<open>(0,0)\<close> finds the three bubbles of the
  corner.
\<close>

lemma collectCluster_exampleBoard:
  "collectCluster 0 0 ''#ff6b6b'' exampleBoard =
     Some ([makeGridBubble exampleCanvas 0 0 ''#ff6b6b'',
            makeGridBubble exampleCanvas 1 0 ''#ff6b6b'',
            makeGridBubble exampleCanvas 0 1 ''#ff6b6b''], exampleBoard)"
  by (simp add: collectCluster_def getBubble_def getNeighbors_def ensureRow_def cellAt_def
        rowAt_def exampleBoard_def COLUMNS_def offsetsEven_def offsetsOdd_def Let_def)

lemmas checkForFloating_unfold =
  checkForFloating_seeds.simps checkForFloating_removeCols.simps checkForFloating_removeRows.simps

text \<open>The cleanup on the example board itself clears the bubble of row 2 only.\<close>

definition exampleSettled :: grid where
  "exampleSettled =
     [Some [Some (makeGridBubble exampleCanvas 0 0 ''#ff6b6b''),
            Some (makeGridBubble exampleCanvas 0 1 ''#ff6b6b''),
            Some (makeGridBubble exampleCanvas 0 2 ''#1982c4''),
            None, None, None, None, None, None, None, None, None, None, None],
      Some [Some (makeGridBubble exampleCanvas 1 0 ''#ff6b6b''),
            None, None, None, None, None, None, None, None, None, None, None, None, None],
      Some [None, None, None, None, None, None, None, None, None, None, None, None, None, None]]"

lemma checkForFloating_exampleBoard:
  "checkForFloating (exampleIdle\<lparr>grid := exampleBoard\<rparr>)
     = Some (exampleIdle\<lparr>grid := exampleSettled, score := 150\<rparr>)"
  by (simp add: checkForFloating_def checkForFloating_unfold getBubble_def getNeighbors_def
        ensureRow_def cellAt_def rowAt_def setCell_def setEntry_def exampleBoard_def
        exampleSettled_def exampleIdle_def COLUMNS_def offsetsEven_def offsetsOdd_def Let_def)

theorem checkForFloating_linked_witness:
  "checkForFloating (exampleIdle\<lparr>grid := exampleBoard\<rparr>)
     = Some (exampleIdle\<lparr>grid := exampleSettled, score := 150\<rparr>)
   \<and> bubbleAt exampleBoard (2, 5) \<noteq> None
   \<and> bubbleAt exampleSettled (2, 5) = None
   \<and> bubbleAt exampleSettled (1, 0) \<noteq> None
   \<and> linkedToTop exampleSettled [(1, 0), (0, 0)]
   \<and> (\<exists>path. linkedToTop exampleSettled ((1, 0) # path))"
proof -
  have o: "bubbleAt exampleBoard (2, 5) \<noteq> None" "bubbleAt exampleSettled (2, 5) = None"
    "bubbleAt exampleSettled (1, 0) \<noteq> None" "bubbleAt exampleSettled (0, 0) \<noteq> None"
    by (simp_all add: bubbleAt_def cellAt_def rowAt_def exampleBoard_def exampleSettled_def
          COLUMNS_def)
  have "(1, 0) \<in> set (hexNeighbors 0 0)"
    by (simp add: hexNeighbors_def offsetsEven_def inRange_def COLUMNS_def)
  with o have l: "linkedToTop exampleSettled [(1, 0), (0, 0)]"
    by (simp add: getNeighbors_fst)
  from checkForFloating_linked[of "exampleIdle\<lparr>grid := exampleBoard\<rparr>"] o(3)
  have "\<exists>path. linkedToTop exampleSettled ((1, 0) # path)"
    by (simp add: checkForFloating_exampleBoard)
  with o l checkForFloating_exampleBoard show ?thesis by blast
qed

theorem collectCluster_maximal_witness:
  "bubbleAt exampleBoard (0, 0) = Some (makeGridBubble exampleCanvas 0 0 ''#ff6b6b'')
   \<and> collectCluster 0 0 ''#ff6b6b'' exampleBoard =
       Some ([makeGridBubble exampleCanvas 0 0 ''#ff6b6b'',
              makeGridBubble exampleCanvas 1 0 ''#ff6b6b'',
              makeGridBubble exampleCanvas 0 1 ''#ff6b6b''], exampleBoard)
   \<and> (\<exists>cells. [makeGridBubble exampleCanvas 0 0 ''#ff6b6b'',
                  makeGridBubble exampleCanvas 1 0 ''#ff6b6b'',
                  makeGridBubble exampleCanvas 0 1 ''#ff6b6b'']
                 = map (\<lambda>p. the (bubbleAt exampleBoard p)) cells
               \<and> distinct cells \<and> (0, 0) \<in> set cells)"
proof -
  have b: "bubbleAt exampleBoard (0, 0) = Some (makeGridBubble exampleCanvas 0 0 ''#ff6b6b'')"
    by (rule exampleBoard_cells)
  from collectCluster_maximal[OF b] obtain cells g' where
    r: "collectCluster 0 0 (bubble_color (makeGridBubble exampleCanvas 0 0 ''#ff6b6b'')) exampleBoard
          = Some (map (\<lambda>p. the (bubbleAt exampleBoard p)) cells, g')"
    and d: "distinct cells" and m: "(0, 0) \<in> set cells"
    by blast
  from r have "[makeGridBubble exampleCanvas 0 0 ''#ff6b6b'',
                makeGridBubble exampleCanvas 1 0 ''#ff6b6b'',
                makeGridBubble exampleCanvas 0 1 ''#ff6b6b'']
                 = map (\<lambda>p. the (bubbleAt exampleBoard p)) cells"
    by (simp add: collectCluster_exampleBoard)
  with d m have "\<exists>cells. [makeGridBubble exampleCanvas 0 0 ''#ff6b6b'',
                  makeGridBubble exampleCanvas 1 0 ''#ff6b6b'',
                  makeGridBubble exampleCanvas 0 1 ''#ff6b6b'']
                 = map (\<lambda>p. the (bubbleAt exampleBoard p)) cells
               \<and> distinct cells \<and> (0, 0) \<in> set cells"
    by (intro exI[of _ cells]) simp
  with b collectCluster_exampleBoard show ?thesis by blast
qed

text \<open>
  A projectile of the colour of the corner at the point \<open>(16, 80)\<close>, whose approximate
  cell is \<open>(0,0)\<close>, lands in cell \<open>(1,1)\<close>, the one empty cell around it.  The cluster
  then has four cells; match resolution clears them for 400 points, and the cleanup
  clears the bubble of row 2, which nothing links to row 0, for 150 points more.
\<close>

definition exampleCleared :: grid where
  "exampleCleared =
     [Some [None, None, Some (makeGridBubble exampleCanvas 0 2 ''#1982c4''),
            None, None, None, None, None, None, None, None, None, None, None],
      Some [None, None, None, None, None, None, None, None, None, None, None, None, None, None],
      Some [None, None, None, None, None,
            Some (makeGridBubble exampleCanvas 2 5 ''#1982c4''),
            None, None, None, None, None, None, None, None]]"

definition exampleAnchored :: grid where
  "exampleAnchored =
     [Some [None, None, Some (makeGridBubble exampleCanvas 0 2 ''#1982c4''),
            None, None, None, None, None, None, None, None, None, None, None],
      Some [None, None, None, None, None, None, None, None, None, None, None, None, None, None],
      Some [None, None, None, None, None, None, None, None, None, None, None, None, None, None]]"

lemma pixelToGrid_example: "pixelToGrid exampleCanvas 16 80 = (0, 0)"
  by (simp add: pixelToGrid_def TOP_MARGIN_def LEFT_OFFSET_def exampleCanvas_simps COLUMNS_def
        BUBBLE_DIAMETER_def BUBBLE_RADIUS_def Let_def)

lemma neighborhood_origin: "neighborhood (0, 0) = [(0, 0), (0, 1), (1, 0), (1, 1)]"
  by (simp add: neighborhood_def COLUMNS_def upto.simps)

definition exampleShot :: moving_bubble where
  "exampleShot = \<lparr>mb_x = 16, mb_y = 80, mb_color = ''#ff6b6b'', mb_dx = 0, mb_dy = - 460\<rparr>"

definition exampleLanding :: game where
  "exampleLanding = exampleIdle\<lparr>grid := exampleBoard, movingBubble := Some exampleShot\<rparr>"

definition exampleLanded :: grid where
  "exampleLanded =
     [Some [Some (makeGridBubble exampleCanvas 0 0 ''#ff6b6b''),
             Some (makeGridBubble exampleCanvas 0 1 ''#ff6b6b''),
             Some (makeGridBubble exampleCanvas 0 2 ''#1982c4''),
             None, None, None, None, None, None, None, None, None, None, None],
      Some [Some (makeGridBubble exampleCanvas 1 0 ''#ff6b6b''),
             Some (makeGridBubble exampleCanvas 1 1 ''#ff6b6b''),
             None, None, None, None, None, None, None, None, None, None, None, None],
      Some [None, None, None, None, None,
             Some (makeGridBubble exampleCanvas 2 5 ''#1982c4''),
             None, None, None, None, None, None, None, None]]"

lemma findClosestSlot_exampleBoard:
  "findClosestSlot exampleCanvas 16 80 exampleBoard = Some ((1, 1), exampleBoard)"
  by (simp add: findClosestSlot_def pixelToGrid_example upto.simps COLUMNS_def ensureRow_def
        cellAt_def rowAt_def exampleBoard_def gridToPixel_def Let_def)

lemma setCell_exampleBoard:
  "setCell (ensureRow (nat 1) exampleBoard) 1 1 (Some (makeGridBubble exampleCanvas 1 1 ''#ff6b6b''))
     = Some exampleLanded"
  by (simp add: setCell_def setEntry_def ensureRow_def rowAt_def exampleBoard_def
        exampleLanded_def)

lemma collectCluster_exampleLanded:
  "collectCluster 1 1 ''#ff6b6b'' exampleLanded =
     Some ([makeGridBubble exampleCanvas 1 1 ''#ff6b6b'',
            makeGridBubble exampleCanvas 1 0 ''#ff6b6b'',
            makeGridBubble exampleCanvas 0 1 ''#ff6b6b'',
            makeGridBubble exampleCanvas 0 0 ''#ff6b6b''], exampleLanded)"
  by (simp add: collectCluster_def getBubble_def getNeighbors_def ensureRow_def cellAt_def
        rowAt_def exampleLanded_def COLUMNS_def offsetsEven_def offsetsOdd_def Let_def)

lemma resolveMatches_exampleLanded:
  "resolveMatches 1 1 (exampleLanding\<lparr>grid := exampleLanded\<rparr>)
     = Some (exampleLanding\<lparr>grid := exampleCleared, score := 400\<rparr>)"
proof -
  have "cellAt exampleLanded 1 1 = Some (Some (makeGridBubble exampleCanvas 1 1 ''#ff6b6b''))"
    by (simp add: cellAt_def rowAt_def exampleLanded_def)
  moreover have "removeCluster [makeGridBubble exampleCanvas 1 1 ''#ff6b6b'',
            makeGridBubble exampleCanvas 1 0 ''#ff6b6b'',
            makeGridBubble exampleCanvas 0 1 ''#ff6b6b'',
            makeGridBubble exampleCanvas 0 0 ''#ff6b6b''] exampleLanded = exampleCleared"
    by (simp add: rowAt_def setEntry_def exampleLanded_def exampleCleared_def)
  ultimately show ?thesis
    by (simp add: resolveMatches_def collectCluster_exampleLanded exampleLanding_def
          exampleIdle_def)
qed

lemma checkForFloating_exampleLanded:
  "checkForFloating (exampleLanding\<lparr>grid := exampleCleared, score := 400\<rparr>)
     = Some (exampleLanding\<lparr>grid := exampleAnchored, score := 550\<rparr>)"
  by (simp add: checkForFloating_def checkForFloating_unfold getBubble_def getNeighbors_def
        ensureRow_def cellAt_def rowAt_def setCell_def setEntry_def exampleCleared_def
        exampleAnchored_def exampleLanding_def exampleIdle_def COLUMNS_def offsetsEven_def
        offsetsOdd_def Let_def)

theorem landing_removal_and_score_witness:
  "coordsOk exampleBoard
   \<and> movingBubble exampleLanding = Some exampleShot
   \<and> findClosestSlot exampleCanvas 16 80 exampleBoard = Some ((1, 1), exampleBoard)
   \<and> collectCluster 1 1 ''#ff6b6b'' exampleLanded =
       Some ([makeGridBubble exampleCanvas 1 1 ''#ff6b6b'',
              makeGridBubble exampleCanvas 1 0 ''#ff6b6b'',
              makeGridBubble exampleCanvas 0 1 ''#ff6b6b'',
              makeGridBubble exampleCanvas 0 0 ''#ff6b6b''], exampleLanded)
   \<and> resolveMatches 1 1 (exampleLanding\<lparr>grid := exampleLanded\<rparr>)
       = Some (exampleLanding\<lparr>grid := exampleCleared, score := 400\<rparr>)
   \<and> checkForFloating (exampleLanding\<lparr>grid := exampleCleared, score := 400\<rparr>)
       = Some (exampleLanding\<lparr>grid := exampleAnchored, score := 550\<rparr>)
   \<and> (\<exists>s'. snapMovingBubble exampleCanvas 0 exampleLanding = Some s'
             \<and> grid s' = exampleAnchored \<and> score s' = 550)
   \<and> (\<exists>s0. init exampleCanvas (\<lambda>k. 0) = Some s0 \<and> cellsOk (grid s0))"
proof -
  note inst = landing_removal_and_score[of exampleCanvas "\<lambda>k. 0" exampleLanding exampleShot 0]
  have mb: "movingBubble exampleLanding = Some exampleShot"
    by (simp add: exampleLanding_def)
  have ok: "cellsOk (grid exampleLanding)"
    using coordsOk_cellsOk[OF coordsOk_exampleBoard] by (simp add: exampleLanding_def)
  have sh: "mb_x exampleShot = 16" "mb_y exampleShot = 80" "mb_color exampleShot = ''#ff6b6b''"
    by (simp_all add: exampleShot_def)
  have gr: "grid exampleLanding = exampleBoard" by (simp add: exampleLanding_def)
  have pre: "cellsOk (grid exampleLanding) \<and> movingBubble exampleLanding = Some exampleShot"
    using ok mb by (rule conjI)
  have nx: "nextBubble exampleLanding \<noteq> None"
    by (simp add: exampleLanding_def exampleIdle_def)
  have snap: "\<exists>s'. snapMovingBubble exampleCanvas 0 exampleLanding = Some s'
             \<and> grid s' = exampleAnchored \<and> score s' = 550"
    using mp[OF conjunct2[OF inst] pre]
  proof (elim exE conjE)
    fix row col g0 landed s1 s2
    assume fc: "findClosestSlot exampleCanvas (mb_x exampleShot) (mb_y exampleShot)
                  (grid exampleLanding) = Some ((row, col), g0)"
      and sc: "setCell (ensureRow (nat row) g0) row col
               (Some (makeGridBubble exampleCanvas row col (mb_color exampleShot))) = Some landed"
      and rm: "resolveMatches row col (exampleLanding\<lparr>grid := landed\<rparr>) = Some s1"
      and cf: "checkForFloating s1 = Some s2"
      and out: "\<forall>s'. snapMovingBubble exampleCanvas 0 exampleLanding = Some s' \<longrightarrow>
                    grid s' = grid s2 \<and> score s' = score s2 \<and> nextBubble s' \<noteq> None"
      and tot: "nextBubble exampleLanding \<noteq> None \<longrightarrow>
                snapMovingBubble exampleCanvas 0 exampleLanding \<noteq> None"
    from fc have rc: "row = 1" "col = 1" "g0 = exampleBoard"
      by (simp_all add: sh gr findClosestSlot_exampleBoard)
    from sc have "setCell (ensureRow (nat 1) exampleBoard) 1 1
                    (Some (makeGridBubble exampleCanvas 1 1 ''#ff6b6b'')) = Some landed"
      unfolding rc sh .
    with setCell_exampleBoard have l: "landed = exampleLanded" by simp
    from rm have s1: "s1 = exampleLanding\<lparr>grid := exampleCleared, score := 400\<rparr>"
      unfolding rc l by (simp add: resolveMatches_exampleLanded)
    from cf have s2: "s2 = exampleLanding\<lparr>grid := exampleAnchored, score := 550\<rparr>"
      unfolding s1 by (simp add: checkForFloating_exampleLanded)
    from tot nx obtain s' where s': "snapMovingBubble exampleCanvas 0 exampleLanding = Some s'"
      by auto
    with out have "grid s' = exampleAnchored \<and> score s' = 550" by (simp add: s2)
    with s' show ?thesis by blast
  qed
  from init_total[of exampleCanvas "\<lambda>k. 0"] obtain s0 where
    i: "init exampleCanvas (\<lambda>k. 0) = Some s0" by blast
  then have "init exampleCanvas (\<lambda>k. 0) = Some s0 \<and> run exampleCanvas [] s0 = Some s0" by simp
  with inst have "cellsOk (grid s0)" by blast
  with i have ini: "\<exists>s0. init exampleCanvas (\<lambda>k. 0) = Some s0 \<and> cellsOk (grid s0)" by blast
  from coordsOk_exampleBoard mb findClosestSlot_exampleBoard collectCluster_exampleLanded
    resolveMatches_exampleLanded checkForFloating_exampleLanded snap ini
  show ?thesis by (intro conjI)
qed

theorem getBubble_total_witness:
  "getBubble (- 1) 0 exampleBoard = Some (None, exampleBoard)
   \<and> getBubble 0 (- 1) exampleBoard = Some (None, exampleBoard)
   \<and> getBubble 0 14 exampleBoard = Some (None, exampleBoard)
   \<and> getBubble 3 0 exampleBoard = Some (None, exampleBoard)"
  using getBubble_total[of "- 1" 0 exampleBoard] getBubble_total[of 0 "- 1" exampleBoard]
    getBubble_total[of 0 14 exampleBoard] getBubble_total[of 3 0 exampleBoard]
  by (simp add: exampleBoard_def COLUMNS_def)

subsection \<open>Landing points on the example board\<close>

text \<open>
  The point \<open>(112, 80)\<close> has the approximate cell \<open>(0,3)\<close>.  Of the six cells around it,
  five are empty on the example board, and \<open>(0,3)\<close> itself, whose centre is \<open>(128, 96)\<close>,
  is the nearest of them.
\<close>

lemma pixelToGrid_example_top: "pixelToGrid exampleCanvas 112 80 = (0, 3)"
  by (simp add: pixelToGrid_def TOP_MARGIN_def LEFT_OFFSET_def exampleCanvas_simps COLUMNS_def
        BUBBLE_DIAMETER_def BUBBLE_RADIUS_def Let_def)

lemma neighborhood_top:
  "neighborhood (0, 3) = [(0, 2), (0, 3), (0, 4), (1, 2), (1, 3), (1, 4)]"
  by (simp add: neighborhood_def COLUMNS_def upto.simps)

lemma emptyCells_exampleBoard_top:
  "emptyCells exampleBoard (neighborhood (0, 3)) = [(0, 3), (0, 4), (1, 2), (1, 3), (1, 4)]"
  by (simp add: neighborhood_top emptyCells_def bubbleAt_def cellAt_def rowAt_def
        exampleBoard_def COLUMNS_def)

lemma gridToPixel_example:
  "gridToPixel exampleCanvas 0 3 = (128, 96)"
  "gridToPixel exampleCanvas 0 4 = (160, 96)"
  "gridToPixel exampleCanvas 1 2 = (112, 96 + sqrt 3 * 16)"
  "gridToPixel exampleCanvas 1 3 = (144, 96 + sqrt 3 * 16)"
  "gridToPixel exampleCanvas 1 4 = (176, 96 + sqrt 3 * 16)"
  by (simp_all add: gridToPixel_def TOP_MARGIN_def LEFT_OFFSET_def exampleCanvas_simps
        COLUMNS_def BUBBLE_DIAMETER_def BUBBLE_RADIUS_def VERTICAL_SPACING_def Let_def)

lemma example_distances:
  "(512 :: real) < (16 + sqrt 3 * 16)\<^sup>2"
proof -
  have "1 < sqrt 3" by simp
  then have "(32 :: real) < 16 + sqrt 3 * 16" by simp
  then have "(32 :: real)\<^sup>2 < (16 + sqrt 3 * 16)\<^sup>2" by (intro power_strict_mono) simp_all
  then show ?thesis by simp
qed

text \<open>The example board with cell \<open>(1,1)\<close> occupied as well.\<close>

definition exampleCorner :: grid where
  "exampleCorner =
     [Some [Some (makeGridBubble exampleCanvas 0 0 ''#ff6b6b''),
            Some (makeGridBubble exampleCanvas 0 1 ''#ff6b6b''),
            Some (makeGridBubble exampleCanvas 0 2 ''#1982c4''),
            None, None, None, None, None, None, None, None, None, None, None],
      Some [Some (makeGridBubble exampleCanvas 1 0 ''#ff6b6b''),
            Some (makeGridBubble exampleCanvas 1 1 ''#8ac926''),
            None, None, None, None, None, None, None, None, None, None, None, None]]"

lemma emptyCells_exampleCorner: "emptyCells exampleCorner (neighborhood (0, 0)) = []"
  by (simp add: neighborhood_origin emptyCells_def bubbleAt_def cellAt_def rowAt_def
        exampleCorner_def COLUMNS_def)

theorem findClosestSlot_nearest_witness:
  "emptyCells exampleBoard (neighborhood (pixelToGrid exampleCanvas 112 80))
     = [(0, 3), (0, 4), (1, 2), (1, 3), (1, 4)]
   \<and> (\<exists>g'. findClosestSlot exampleCanvas 112 80 exampleBoard = Some ((0, 3), g'))
   \<and> emptyCells exampleCorner (neighborhood (pixelToGrid exampleCanvas 16 80)) = []
   \<and> (\<exists>g'. findClosestSlot exampleCanvas 16 80 exampleCorner = Some ((0, 0), g'))
   \<and> bubbleAt exampleCorner (0, 0) = Some (makeGridBubble exampleCanvas 0 0 ''#ff6b6b'')"
proof -
  let ?E = "emptyCells exampleBoard (neighborhood (pixelToGrid exampleCanvas 112 80))"
  let ?d = "\<lambda>q. sqrt ((fst (gridToPixel exampleCanvas (fst q) (snd q)) - 112)\<^sup>2
                   + (snd (gridToPixel exampleCanvas (fst q) (snd q)) - 80)\<^sup>2)"
  have E: "?E = [(0, 3), (0, 4), (1, 2), (1, 3), (1, 4)]"
    by (simp add: pixelToGrid_example_top emptyCells_exampleBoard_top)
  then have "?E \<noteq> []" by simp
  with findClosestSlot_nearest[of exampleCanvas 112 80 exampleBoard]
  obtain p g' where r: "findClosestSlot exampleCanvas 112 80 exampleBoard = Some (p, g')"
    and m: "p \<in> set ?E" and n: "\<forall>q \<in> set ?E. ?d p \<le> ?d q"
    by blast
  have "(0, 3) \<in> set ?E" unfolding E by simp
  with n have n3: "?d p \<le> ?d (0, 3)" by (rule bspec)
  have e: "(96 + sqrt 3 * 16 - 80 :: real) = 16 + sqrt 3 * 16" by simp
  have far: "\<not> ?d q \<le> ?d (0, 3)" if "q \<in> {(0, 4), (1, 2), (1, 3), (1, 4)}" for q
    using that example_distances unfolding not_le real_sqrt_less_iff
    by (auto simp add: gridToPixel_example e add_pos_nonneg)
  have "p = (0, 3)"
  proof (rule ccontr)
    assume "p \<noteq> (0, 3)"
    with m have "p \<in> {(0, 4), (1, 2), (1, 3), (1, 4)}" unfolding E by auto
    from far[OF this] n3 show False by blast
  qed
  with r have "\<exists>g'. findClosestSlot exampleCanvas 112 80 exampleBoard = Some ((0, 3), g')"
    by blast
  moreover have "\<exists>g'. findClosestSlot exampleCanvas 16 80 exampleCorner = Some ((0, 0), g')"
    using findClosestSlot_nearest[of exampleCanvas 16 80 exampleCorner]
    by (auto simp: pixelToGrid_example emptyCells_exampleCorner)
  moreover have "bubbleAt exampleCorner (0, 0) = Some (makeGridBubble exampleCanvas 0 0 ''#ff6b6b'')"
    by (simp add: bubbleAt_def cellAt_def rowAt_def exampleCorner_def COLUMNS_def)
  ultimately show ?thesis
    by (simp add: pixelToGrid_example pixelToGrid_example_top emptyCells_exampleBoard_top
          emptyCells_exampleCorner)
qed

end
